theory Spec2Isabelle
  imports Main "HOL-Library.AList"
begin

section \<open>The database backend of constance: data model\<close>

text \<open>
  The development embeds \<^verbatim>\<open>DatabaseBackend\<close> of
  \<^verbatim>\<open>constance/backends/database.py\<close>. The backend object holds its
  settings; the durable table, the shared cache and everything the backend hands to its
  collaborators are the state that each method takes and returns.
\<close>

text \<open>
  Configuration values are opaque Python scalars. \<open>PNone\<close> is Python's
  \<^verbatim>\<open>None\<close>, the absent-marker.
\<close>

datatype pyval = PNone | PBool bool | PInt int | PStr string

text \<open>Python truthiness, as used by \<^verbatim>\<open>if self._cache.get(full_cachekey)\<close>.\<close>

fun truthy :: "pyval \<Rightarrow> bool" where
  "truthy PNone = False"
| "truthy (PBool b) = b"
| "truthy (PInt i) = (i \<noteq> 0)"
| "truthy (PStr s) = (s \<noteq> [])"

text \<open>
  The two exceptions that the source treats as ``store unavailable'', and the
  exceptions that can travel through the backend.
\<close>

datatype fault = OperationalError | ProgrammingError

datatype error = Unavailable fault | DoesNotExist | IntegrityError | KeyError

text \<open>
  Every call that leaves the backend is recorded, in order: calls to the cache, calls to
  the durable store (whether or not they succeed), and the \<^verbatim>\<open>config_updated\<close>
  signal. \<open>Autofill_invoked\<close> marks each entry into \<^verbatim>\<open>autofill\<close>.
  The \<^verbatim>\<open>warn\<close> calls only write to the warnings channel and are left out.
\<close>

datatype event =
    Cache_get string
  | Cache_get_many "string list"
  | Cache_set string pyval
  | Cache_set_many "(string \<times> pyval) list" "int option"
  | Cache_add string pyval
  | Cache_delete_many "string list"
  | Db_get string
  | Db_filter "string list"
  | Db_create string pyval
  | Db_save string pyval
  | Config_updated string pyval pyval
  | Autofill_invoked

text \<open>
  \<open>cache\<close> is the content of the shared cache, \<open>rows\<close> the durable table in
  storage order (one \<^verbatim>\<open>(key, value)\<close> record per row), \<open>down\<close> says
  whether every durable-store operation currently raises, and with which exception.
  Expiry of cache entries is not part of the state: the model describes the cache between
  two expiries.
\<close>

record state =
  cache :: "string \<rightharpoonup> pyval"
  rows :: "(string \<times> pyval) list"
  down :: "fault option"
  trace :: "event list"

text \<open>
  The attributes set by \<^verbatim>\<open>__init__\<close>: \<^verbatim>\<open>_prefix\<close>,
  \<^verbatim>\<open>_autofill_timeout\<close>, whether \<^verbatim>\<open>_cache\<close> is a cache or
  \<^verbatim>\<open>None\<close>, and the keys of \<^verbatim>\<open>settings.CONFIG\<close>, in the
  order of the dict. The settings module is not under \<^verbatim>\<open>src/\<close>; its values
  are parameters.
\<close>

record backend =
  prefix :: string
  autofill_timeout :: "int option"
  has_cache :: bool
  CONFIG :: "string list"

definition autofill_cachekey :: string where
  "autofill_cachekey = ''autofilled''"

definition add_prefix :: "backend \<Rightarrow> string \<Rightarrow> string" where
  "add_prefix b key = prefix b @ key"

text \<open>\<^verbatim>\<open>not self._autofill_timeout\<close>: the timeout is \<^verbatim>\<open>None\<close> or zero.\<close>

definition timeout_unset :: "int option \<Rightarrow> bool" where
  "timeout_unset t = (case t of None \<Rightarrow> True | Some n \<Rightarrow> n = 0)"

text \<open>
  \<open>emit\<close> appends a call to the trace; \<open>new_events s s'\<close> are the calls made
  between a state \<open>s\<close> and a later state \<open>s'\<close>.
\<close>

definition emit :: "event \<Rightarrow> state \<Rightarrow> state" where
  "emit e s = s\<lparr>trace := trace s @ [e]\<rparr>"

definition new_events :: "state \<Rightarrow> state \<Rightarrow> event list" where
  "new_events s s' = drop (length (trace s)) (trace s')"

section \<open>The collaborators\<close>

text \<open>
  The cache is Django's cache framework and the durable store is the
  \<^verbatim>\<open>Constance\<close> model behind Django's ORM. Neither is under
  \<^verbatim>\<open>src/\<close>; their operations are modelled from the interfaces that the
  spec lists for \<^verbatim>\<open>SharedCache\<close> and \<^verbatim>\<open>DurableStore\<close>.
  Every operation records its call in the trace.
\<close>

subsection \<open>The shared cache\<close>

text \<open>
  Modelled from the spec: \<^verbatim>\<open>get(key) \<rightarrow> value | absent\<close> of the shared
  cache, which is missing from the sources. An absent key reads as
  \<^verbatim>\<open>None\<close>, as does a key under which \<^verbatim>\<open>None\<close> is stored.
\<close>

definition cache_get :: "string \<Rightarrow> state \<Rightarrow> pyval \<times> state" where
  "cache_get k s =
     ((case cache s k of None \<Rightarrow> PNone | Some v \<Rightarrow> v), emit (Cache_get k) s)"

text \<open>
  Modelled from the spec: \<^verbatim>\<open>get_many(keys) \<rightarrow> mapping of hits\<close> of the
  shared cache, which is missing from the sources. The hits are the requested keys that
  have an entry, here in the order of the request; no property below depends on the
  order.
\<close>

definition cache_get_many :: "string list \<Rightarrow> state \<Rightarrow> (string \<times> pyval) list \<times> state" where
  "cache_get_many ks s =
     (List.map_filter (\<lambda>k. map_option (Pair k) (cache s k)) ks, emit (Cache_get_many ks) s)"

text \<open>
  Modelled from the spec: \<^verbatim>\<open>set(key, value, ttl?)\<close> of the shared cache,
  which is missing from the sources. The entry is overwritten.
\<close>

definition cache_set :: "string \<Rightarrow> pyval \<Rightarrow> state \<Rightarrow> state" where
  "cache_set k v s = emit (Cache_set k v) (s\<lparr>cache := (cache s)(k \<mapsto> v)\<rparr>)"

text \<open>
  Modelled from the spec: \<^verbatim>\<open>set_many(mapping, ttl)\<close> of the shared cache,
  which is missing from the sources. Every entry of the mapping is written; the expiry
  is recorded in the trace only.
\<close>

definition cache_set_many :: "(string \<times> pyval) list \<Rightarrow> int option \<Rightarrow> state \<Rightarrow> state" where
  "cache_set_many kvs timeout s =
     emit (Cache_set_many kvs timeout)
       (s\<lparr>cache := fold (\<lambda>(k, v) m. m(k \<mapsto> v)) kvs (cache s)\<rparr>)"

text \<open>
  Modelled from the spec: \<^verbatim>\<open>add_if_absent(key, value)\<close> of the shared cache
  (Django's \<^verbatim>\<open>add\<close>), which is missing from the sources. The value is
  written only if the key has no entry.
\<close>

definition cache_add :: "string \<Rightarrow> pyval \<Rightarrow> state \<Rightarrow> state" where
  "cache_add k v s =
     emit (Cache_add k v)
       (case cache s k of None \<Rightarrow> s\<lparr>cache := (cache s)(k \<mapsto> v)\<rparr> | Some _ \<Rightarrow> s)"

text \<open>
  Modelled from the spec: \<^verbatim>\<open>delete_many(keys)\<close> of the shared cache, which
  is missing from the sources.
\<close>

definition cache_delete_many :: "string list \<Rightarrow> state \<Rightarrow> state" where
  "cache_delete_many ks s =
     emit (Cache_delete_many ks)
       (s\<lparr>cache := (\<lambda>k. if k \<in> set ks then None else cache s k)\<rparr>)"

subsection \<open>The durable store\<close>

text \<open>
  Modelled from the spec: \<^verbatim>\<open>get(key) \<rightarrow> record | not-found-error\<close> of the
  durable store (\<^verbatim>\<open>queryset.get(key=key)\<close> on the \<^verbatim>\<open>Constance\<close>
  model, which is missing from the sources), which ``may raise a transient store
  unavailable condition''. The result is the value of the record; the spec's invariant
  is at most one record per key.
\<close>

definition db_get :: "string \<Rightarrow> state \<Rightarrow> (error + pyval) \<times> state" where
  "db_get k s =
     ((case down s of
         Some f \<Rightarrow> Inl (Unavailable f)
       | None \<Rightarrow> (case map_of (rows s) k of None \<Rightarrow> Inl DoesNotExist | Some v \<Rightarrow> Inr v)),
      emit (Db_get k) s)"

text \<open>
  Modelled from the spec: \<^verbatim>\<open>filter(key \<in> set) \<rightarrow> sequence of records\<close>
  of the durable store (\<^verbatim>\<open>filter(key__in=keys)\<close> on the
  \<^verbatim>\<open>Constance\<close> model, which is missing from the sources), in storage order.
\<close>

definition db_filter :: "string list \<Rightarrow> state \<Rightarrow> (error + (string \<times> pyval) list) \<times> state" where
  "db_filter ks s =
     ((case down s of
         Some f \<Rightarrow> Inl (Unavailable f)
       | None \<Rightarrow> Inr (filter (\<lambda>r. fst r \<in> set ks) (rows s))),
      emit (Db_filter ks) s)"

text \<open>
  Modelled from the spec: \<^verbatim>\<open>create(key, value) \<rightarrow> record | uniqueness-error\<close>
  of the durable store (\<^verbatim>\<open>queryset.create\<close> inside
  \<^verbatim>\<open>transaction.atomic\<close>, on the \<^verbatim>\<open>Constance\<close> model, which is
  missing from the sources). A failed create leaves the table as it was.
\<close>

definition db_create :: "string \<Rightarrow> pyval \<Rightarrow> state \<Rightarrow> (error + unit) \<times> state" where
  "db_create k v s =
     (case down s of
        Some f \<Rightarrow> (Inl (Unavailable f), emit (Db_create k v) s)
      | None \<Rightarrow>
          if k \<in> fst ` set (rows s) then (Inl IntegrityError, emit (Db_create k v) s)
          else (Inr (), emit (Db_create k v) (s\<lparr>rows := rows s @ [(k, v)]\<rparr>)))"

text \<open>
  Modelled from the spec: \<^verbatim>\<open>record.save()\<close> of the durable store
  (\<^verbatim>\<open>constance.save()\<close> on a fetched record of the \<^verbatim>\<open>Constance\<close>
  model, which is missing from the sources). The record of the key is ``mutated in
  place''; Django inserts the record if its row is gone.
\<close>

definition db_save :: "string \<Rightarrow> pyval \<Rightarrow> state \<Rightarrow> (error + unit) \<times> state" where
  "db_save k v s =
     (case down s of
        Some f \<Rightarrow> (Inl (Unavailable f), emit (Db_save k v) s)
      | None \<Rightarrow> (Inr (), emit (Db_save k v) (s\<lparr>rows := AList.update k v (rows s)\<rparr>)))"

section \<open>The backend's methods\<close>

text \<open>
  A Python dict is an association list with distinct keys in insertion order;
  \<open>AList.update\<close> is item assignment. \<open>getitem\<close> is \<^verbatim>\<open>d[k]\<close>.
\<close>

definition getitem :: "(string \<times> 'a) list \<Rightarrow> string \<Rightarrow> error + 'a" where
  "getitem d k = (case map_of d k of None \<Rightarrow> Inl KeyError | Some v \<Rightarrow> Inr v)"

text \<open>
  \<^verbatim>\<open>for key, value in items: yield keys[key], value\<close>. A failing lookup ends
  the generator with the exception.
\<close>

fun yield_items ::
  "(string \<times> string) list \<Rightarrow> (string \<times> pyval) list \<Rightarrow> error + (string \<times> pyval) list" where
  "yield_items keys [] = Inr []"
| "yield_items keys ((k, v) # items) =
     (case getitem keys k of
        Inl e \<Rightarrow> Inl e
      | Inr key \<Rightarrow>
          (case yield_items keys items of
             Inl e \<Rightarrow> Inl e
           | Inr out \<Rightarrow> Inr ((key, v) # out)))"

text \<open>
  Lines 90--93 of \<^verbatim>\<open>mget\<close>: one batched lookup of the pending keys, with
  \<^verbatim>\<open>OperationalError\<close> and \<^verbatim>\<open>ProgrammingError\<close> suppressed.
\<close>

definition mget_stored ::
  "(string \<times> string) list \<Rightarrow> state \<Rightarrow> (error + (string \<times> pyval) list) \<times> state" where
  "mget_stored keys s =
     (case db_filter (map fst keys) s of
        (Inl (Unavailable f), s') \<Rightarrow> (Inr [], s')
      | (Inl e, s') \<Rightarrow> (Inl e, s')
      | (Inr stored, s') \<Rightarrow> (yield_items keys stored, s'))"

text \<open>
  \<^verbatim>\<open>{self.add_prefix(key): key for key in keys}\<close>.
\<close>

definition prefixed_keys :: "backend \<Rightarrow> string list \<Rightarrow> (string \<times> string) list" where
  "prefixed_keys b keys = fold (\<lambda>key d. AList.update (add_prefix b key) key d) keys []"

text \<open>
  \<^verbatim>\<open>mget\<close> is a generator; the model returns everything it yields when it is
  run to its end, or the exception that ends it. \<^verbatim>\<open>mget\<close> calls
  \<^verbatim>\<open>autofill\<close>, which calls \<^verbatim>\<open>mget\<close> with
  \<^verbatim>\<open>fallback=False\<close>.
\<close>

function
  mget :: "backend \<Rightarrow> string list \<Rightarrow> bool \<Rightarrow> state \<Rightarrow> (error + (string \<times> pyval) list) \<times> state"
and
  autofill :: "backend \<Rightarrow> state \<Rightarrow> (error + unit) \<times> state"
where
  "mget b keys0 fallback s =
     (if keys0 = [] then (Inr [], s)
      else
        let keys = prefixed_keys b keys0 in
        if has_cache b \<and> fallback then
          (case cache_get_many (map fst keys) s of (values0, s1) \<Rightarrow>
             (case (if length values0 \<noteq> length keys
                    then (case autofill b s1 of
                            (Inl e, s2) \<Rightarrow> (Inl e, s2)
                          | (Inr u, s2) \<Rightarrow>
                              (case cache_get_many (map fst keys) s2 of
                                 (values1, s3) \<Rightarrow> (Inr values1, s3)))
                    else (Inr values0, s1)) of
                (Inl e, s3) \<Rightarrow> (Inl e, s3)
              | (Inr values, s3) \<Rightarrow>
                  (case yield_items keys values of
                     Inl e \<Rightarrow> (Inl e, s3)
                   | Inr out1 \<Rightarrow>
                       let keys' = filter (\<lambda>(key, value). key \<notin> fst ` set values) keys in
                       if keys' = [] then (Inr out1, s3)
                       else
                         (case mget_stored keys' s3 of
                            (Inl e, s4) \<Rightarrow> (Inl e, s4)
                          | (Inr out2, s4) \<Rightarrow> (Inr (out1 @ out2), s4)))))
        else mget_stored keys s)"
| "autofill b s0 =
     (let s = emit Autofill_invoked s0 in
      if timeout_unset (autofill_timeout b) \<or> \<not> has_cache b then (Inr (), s)
      else
        let full_cachekey = add_prefix b autofill_cachekey in
        (case cache_get full_cachekey s of (flag, s1) \<Rightarrow>
           if truthy flag then (Inr (), s1)
           else
             (case mget b (CONFIG b) False s1 of
                (Inl e, s2) \<Rightarrow> (Inl e, s2)
              | (Inr pairs, s2) \<Rightarrow>
                  let autofill_values =
                        fold (\<lambda>(key, value) d. AList.update (add_prefix b key) value d)
                          pairs [(full_cachekey, PInt 1)]
                  in (Inr (), cache_set_many autofill_values (autofill_timeout b) s2))))"
  by pat_completeness auto
termination
  by (relation "measure (\<lambda>x. case x of
                   Inl (b, keys0, fallback, s) \<Rightarrow> if fallback then 2 else 0
                 | Inr (b, s0) \<Rightarrow> 1)") auto

text \<open>
  \<^verbatim>\<open>get\<close>: the cache first, \<^verbatim>\<open>autofill\<close> and one retry on a
  miss, then the durable store, whose \<^verbatim>\<open>OperationalError\<close>,
  \<^verbatim>\<open>ProgrammingError\<close> and \<^verbatim>\<open>DoesNotExist\<close> are caught.
\<close>

definition get :: "backend \<Rightarrow> string \<Rightarrow> state \<Rightarrow> (error + pyval) \<times> state" where
  "get b key0 s =
     (let key = add_prefix b key0 in
      case (if has_cache b then
              (case cache_get key s of (value0, s1) \<Rightarrow>
                 if value0 = PNone then
                   (case autofill b s1 of
                      (Inl e, s2) \<Rightarrow> (Inl e, s2)
                    | (Inr u, s2) \<Rightarrow>
                        (case cache_get key s2 of (value1, s3) \<Rightarrow> (Inr value1, s3)))
                 else (Inr value0, s1))
            else (Inr PNone, s)) of
        (Inl e, s3) \<Rightarrow> (Inl e, s3)
      | (Inr value, s3) \<Rightarrow>
          if value = PNone then
            (case db_get key s3 of
               (Inl (Unavailable f), s4) \<Rightarrow> (Inr value, s4)
             | (Inl DoesNotExist, s4) \<Rightarrow> (Inr value, s4)
             | (Inl e, s4) \<Rightarrow> (Inl e, s4)
             | (Inr stored, s4) \<Rightarrow>
                 (Inr stored, if has_cache b then cache_add key stored s4 else s4))
          else (Inr value, s3))"

text \<open>
  \<^verbatim>\<open>clear\<close> is the receiver that \<^verbatim>\<open>__init__\<close> connects to
  the \<^verbatim>\<open>post_save\<close> signal of the model on line 52; \<open>created\<close> is the
  flag the signal carries (\<^verbatim>\<open>sender\<close> and \<^verbatim>\<open>instance\<close> are
  not used).
\<close>

definition clear :: "backend \<Rightarrow> bool \<Rightarrow> state \<Rightarrow> (error + unit) \<times> state" where
  "clear b created s =
     (if has_cache b \<and> \<not> created then
        let keys = map (add_prefix b) (CONFIG b) @ [add_prefix b autofill_cachekey]
        in autofill b (cache_delete_many keys s)
      else (Inr (), s))"

text \<open>
  Modelled from the spec: the save events of the store layer (Django's
  \<^verbatim>\<open>post_save\<close> signal; the layer is missing from the sources), which the
  spec describes as invoking the handler ``whenever a durable record is saved'', with ``a
  flag indicating whether the save was a fresh creation''. Line 52 connects
  \<^verbatim>\<open>clear\<close> to the signal of the model for every save, so the saves that
  \<^verbatim>\<open>set\<close> itself makes on lines 130 and 139 run \<^verbatim>\<open>clear\<close> as
  well, before \<^verbatim>\<open>set\<close> goes on.
\<close>

definition post_save :: "backend \<Rightarrow> bool \<Rightarrow> state \<Rightarrow> (error + unit) \<times> state" where
  "post_save b created s = clear b created s"

text \<open>
  \<^verbatim>\<open>set\<close> leaves either through the \<^verbatim>\<open>return\<close> of line 126
  (the store is not there: nothing is done) or by running to its end.
\<close>

datatype exit = Returned_early | Finished

text \<open>Lines 143--148: the cache entry is overwritten and the signal is sent.\<close>

definition set_finish ::
  "backend \<Rightarrow> string \<Rightarrow> pyval \<Rightarrow> pyval \<Rightarrow> state \<Rightarrow> (error + exit) \<times> state" where
  "set_finish b key value old_value s =
     (let s1 = (if has_cache b then cache_set key value s else s)
      in (Inr Finished, emit (Config_updated key old_value value) s1))"

text \<open>
  Lines 136--139 for a record that was fetched: its value is the old value, the new value
  is assigned and the record saved; the save is an update and sends
  \<^verbatim>\<open>post_save\<close> with \<^verbatim>\<open>created=False\<close>.
\<close>

definition set_update ::
  "backend \<Rightarrow> string \<Rightarrow> pyval \<Rightarrow> pyval \<Rightarrow> state \<Rightarrow> (error + exit) \<times> state" where
  "set_update b key value fetched s =
     (case db_save key value s of
        (Inl e, s1) \<Rightarrow> (Inl e, s1)
      | (Inr u, s1) \<Rightarrow>
          (case post_save b False s1 of
             (Inl e, s2) \<Rightarrow> (Inl e, s2)
           | (Inr u', s2) \<Rightarrow> set_finish b key value fetched s2))"

text \<open>
  \<^verbatim>\<open>set\<close>. A successful create sends \<^verbatim>\<open>post_save\<close> with
  \<^verbatim>\<open>created=True\<close>.
\<close>

definition set_value :: "backend \<Rightarrow> string \<Rightarrow> pyval \<Rightarrow> state \<Rightarrow> (error + exit) \<times> state" where
  "set_value b key0 value s =
     (let key = add_prefix b key0 in
      case db_get key s of
        (Inl (Unavailable f), s1) \<Rightarrow> (Inr Returned_early, s1)
      | (Inl DoesNotExist, s1) \<Rightarrow>
          (case db_create key value s1 of
             (Inr u, s2) \<Rightarrow>
               (case post_save b True s2 of
                  (Inl e, s3) \<Rightarrow> (Inl e, s3)
                | (Inr u', s3) \<Rightarrow> set_finish b key value PNone s3)
           | (Inl IntegrityError, s2) \<Rightarrow>
               (case db_get key s2 of
                  (Inl e, s3) \<Rightarrow> (Inl e, s3)
                | (Inr fetched, s3) \<Rightarrow> set_update b key value fetched s3)
           | (Inl e, s2) \<Rightarrow> (Inl e, s2))
      | (Inl e, s1) \<Rightarrow> (Inl e, s1)
      | (Inr fetched, s1) \<Rightarrow> set_update b key value fetched s1)"

text \<open>
  Lines 84--93 of \<^verbatim>\<open>mget\<close> on their own, for the proofs: what
  \<^verbatim>\<open>mget\<close> does once the cache has answered with \<open>vals\<close>
  (lemmas \<open>mget_hit\<close> and \<open>mget_miss\<close> tie it to \<open>mget\<close>).
\<close>

definition mget_rest ::
  "(string \<times> string) list \<Rightarrow> (string \<times> pyval) list \<Rightarrow> state
     \<Rightarrow> (error + (string \<times> pyval) list) \<times> state" where
  "mget_rest keys vals s3 =
     (case yield_items keys vals of
        Inl e \<Rightarrow> (Inl e, s3)
      | Inr out1 \<Rightarrow>
          let keys' = filter (\<lambda>(key, value). key \<notin> fst ` set vals) keys in
          if keys' = [] then (Inr out1, s3)
          else
            (case mget_stored keys' s3 of
               (Inl e, s4) \<Rightarrow> (Inl e, s4)
             | (Inr out2, s4) \<Rightarrow> (Inr (out1 @ out2), s4)))"

text \<open>
  Lines 104--112 of \<^verbatim>\<open>get\<close> on their own, for the proofs: what
  \<^verbatim>\<open>get\<close> does once the cache has answered with \<open>value\<close>.
\<close>

definition get_rest :: "backend \<Rightarrow> string \<Rightarrow> pyval \<Rightarrow> state \<Rightarrow> (error + pyval) \<times> state" where
  "get_rest b key value s3 =
     (if value = PNone then
        (case db_get key s3 of
           (Inl (Unavailable f), s4) \<Rightarrow> (Inr value, s4)
         | (Inl DoesNotExist, s4) \<Rightarrow> (Inr value, s4)
         | (Inl e, s4) \<Rightarrow> (Inl e, s4)
         | (Inr stored, s4) \<Rightarrow>
             (Inr stored, if has_cache b then cache_add key stored s4 else s4))
      else (Inr value, s3))"

section \<open>Two concurrent writers\<close>

text \<open>
  \<^verbatim>\<open>set\<close> again, one call to a collaborator at a time, so that the calls of
  two running \<^verbatim>\<open>set\<close>s can be interleaved. The program counter names the
  next call and holds the local \<^verbatim>\<open>old_value\<close> once it is known:
  \<open>At_get\<close> is line 123, \<open>At_create\<close> line 130, \<open>At_refetch\<close> line 134,
  \<open>At_save\<close> lines 137--139. The save sends \<^verbatim>\<open>post_save\<close>, whose
  receiver \<^verbatim>\<open>clear\<close> runs inside \<^verbatim>\<open>set\<close>: \<open>At_clear\<close> is
  lines 151--154 (\<^verbatim>\<open>delete_many\<close>), \<open>At_autofill\<close> lines 58--62 (the
  sentinel is read), \<open>At_scan\<close> line 64 (the registry is read from the store) and
  \<open>At_fill\<close> lines 63--66 (\<^verbatim>\<open>set_many\<close>, with the pairs of the scan).
  Then \<open>At_cache\<close> is lines 143--144 and \<open>At_signal\<close> lines 146--148. After a
  create, \<^verbatim>\<open>clear\<close> is run with \<^verbatim>\<open>created=True\<close> and makes no
  call. Each call to the store or the cache is atomic, as the spec assumes of the durable
  store's create and of the cache's operations.
\<close>

datatype pc =
    At_get
  | At_create
  | At_refetch
  | At_save pyval
  | At_clear pyval
  | At_autofill pyval
  | At_scan pyval
  | At_fill pyval "(string \<times> pyval) list"
  | At_cache pyval
  | At_signal pyval
  | Exited "error + exit"

fun set_step :: "backend \<Rightarrow> string \<Rightarrow> pyval \<Rightarrow> pc \<Rightarrow> state \<Rightarrow> pc \<times> state" where
  "set_step b key0 value At_get s =
     (case db_get (add_prefix b key0) s of
        (Inl (Unavailable f), s1) \<Rightarrow> (Exited (Inr Returned_early), s1)
      | (Inl DoesNotExist, s1) \<Rightarrow> (At_create, s1)
      | (Inl e, s1) \<Rightarrow> (Exited (Inl e), s1)
      | (Inr fetched, s1) \<Rightarrow> (At_save fetched, s1))"
| "set_step b key0 value At_create s =
     (case db_create (add_prefix b key0) value s of
        (Inr u, s2) \<Rightarrow>
          (case post_save b True s2 of
             (Inl e, s3) \<Rightarrow> (Exited (Inl e), s3)
           | (Inr u', s3) \<Rightarrow> (At_cache PNone, s3))
      | (Inl IntegrityError, s2) \<Rightarrow> (At_refetch, s2)
      | (Inl e, s2) \<Rightarrow> (Exited (Inl e), s2))"
| "set_step b key0 value At_refetch s =
     (case db_get (add_prefix b key0) s of
        (Inl e, s3) \<Rightarrow> (Exited (Inl e), s3)
      | (Inr fetched, s3) \<Rightarrow> (At_save fetched, s3))"
| "set_step b key0 value (At_save old_value) s =
     (case db_save (add_prefix b key0) value s of
        (Inl e, s1) \<Rightarrow> (Exited (Inl e), s1)
      | (Inr u, s1) \<Rightarrow> (At_clear old_value, s1))"
| "set_step b key0 value (At_clear old_value) s =
     (if has_cache b then
        (At_autofill old_value,
         cache_delete_many
           (map (add_prefix b) (CONFIG b) @ [add_prefix b autofill_cachekey]) s)
      else (At_cache old_value, s))"
| "set_step b key0 value (At_autofill old_value) s0 =
     (let s = emit Autofill_invoked s0 in
      if timeout_unset (autofill_timeout b) \<or> \<not> has_cache b then (At_cache old_value, s)
      else
        (case cache_get (add_prefix b autofill_cachekey) s of (flag, s1) \<Rightarrow>
           if truthy flag then (At_cache old_value, s1) else (At_scan old_value, s1)))"
| "set_step b key0 value (At_scan old_value) s =
     (case mget b (CONFIG b) False s of
        (Inl e, s2) \<Rightarrow> (Exited (Inl e), s2)
      | (Inr pairs, s2) \<Rightarrow> (At_fill old_value pairs, s2))"
| "set_step b key0 value (At_fill old_value pairs) s =
     (At_cache old_value,
      cache_set_many
        (fold (\<lambda>(key, value) d. AList.update (add_prefix b key) value d)
           pairs [(add_prefix b autofill_cachekey, PInt 1)])
        (autofill_timeout b) s)"
| "set_step b key0 value (At_cache old_value) s =
     (At_signal old_value,
      if has_cache b then cache_set (add_prefix b key0) value s else s)"
| "set_step b key0 value (At_signal old_value) s =
     (Exited (Inr Finished), emit (Config_updated (add_prefix b key0) old_value value) s)"
| "set_step b key0 value (Exited r) s = (Exited r, s)"

text \<open>
  Two processes call \<^verbatim>\<open>set(K, V1)\<close> and \<^verbatim>\<open>set(K, V2)\<close> on the same
  store and cache. A schedule says, step by step, which of the two makes its next call
  (\<open>True\<close>: the first). A process that has exited stays where it is.
\<close>

fun interleave ::
  "backend \<Rightarrow> string \<Rightarrow> pyval \<Rightarrow> pyval \<Rightarrow> bool list \<Rightarrow> pc \<times> pc \<times> state \<Rightarrow> pc \<times> pc \<times> state" where
  "interleave b K V1 V2 [] c = c"
| "interleave b K V1 V2 (first # sched) (p1, p2, s) =
     (if first then
        (case set_step b K V1 p1 s of (p1', s') \<Rightarrow> interleave b K V1 V2 sched (p1', p2, s'))
      else
        (case set_step b K V2 p2 s of (p2', s') \<Rightarrow> interleave b K V1 V2 sched (p1, p2', s')))"

text \<open>The number of turns a process still needs, at most.\<close>

fun steps_left :: "pc \<Rightarrow> nat" where
  "steps_left At_get = 10"
| "steps_left At_create = 9"
| "steps_left At_refetch = 8"
| "steps_left (At_save old_value) = 7"
| "steps_left (At_clear old_value) = 6"
| "steps_left (At_autofill old_value) = 5"
| "steps_left (At_scan old_value) = 4"
| "steps_left (At_fill old_value pairs) = 3"
| "steps_left (At_cache old_value) = 2"
| "steps_left (At_signal old_value) = 1"
| "steps_left (Exited r) = 0"

text \<open>
  A process is settled once it knows that the key has a record: it has fetched the
  record, has created it, or its create has failed on it. A process that has exited is
  settled if it ran to the end.
\<close>

fun settled :: "pc \<Rightarrow> bool" where
  "settled At_get = False"
| "settled At_create = False"
| "settled (Exited r) = (r = Inr Finished)"
| "settled p = True"

fun exited_ok :: "pc \<Rightarrow> bool" where
  "exited_ok (Exited r) = (r = Inr Finished)"
| "exited_ok p = True"

definition race_inv :: "string \<Rightarrow> pyval \<Rightarrow> pyval \<Rightarrow> pc \<times> pc \<times> state \<Rightarrow> bool" where
  "race_inv key V1 V2 c =
     (case c of (p1, p2, s) \<Rightarrow>
        down s = None \<and> distinct (map fst (rows s)) \<and>
        exited_ok p1 \<and> exited_ok p2 \<and>
        (case map_of (rows s) key of
           None \<Rightarrow> \<not> settled p1 \<and> \<not> settled p2
         | Some v \<Rightarrow> v = V1 \<or> v = V2))"

section \<open>Reading the trace\<close>

text \<open>The kinds of calls that the properties below count.\<close>

fun is_batch_get :: "event \<Rightarrow> bool" where
  "is_batch_get (Cache_get_many ks) = True"
| "is_batch_get e = False"

fun is_store_scan :: "event \<Rightarrow> bool" where
  "is_store_scan (Db_filter ks) = True"
| "is_store_scan e = False"

fun is_store_call :: "event \<Rightarrow> bool" where
  "is_store_call (Db_get k) = True"
| "is_store_call (Db_filter ks) = True"
| "is_store_call (Db_create k v) = True"
| "is_store_call (Db_save k v) = True"
| "is_store_call e = False"

fun is_store_write :: "event \<Rightarrow> bool" where
  "is_store_write (Db_create k v) = True"
| "is_store_write (Db_save k v) = True"
| "is_store_write e = False"

fun is_cache_call :: "event \<Rightarrow> bool" where
  "is_cache_call (Cache_get k) = True"
| "is_cache_call (Cache_get_many ks) = True"
| "is_cache_call (Cache_set k v) = True"
| "is_cache_call (Cache_set_many kvs t) = True"
| "is_cache_call (Cache_add k v) = True"
| "is_cache_call (Cache_delete_many ks) = True"
| "is_cache_call e = False"

fun is_cache_write :: "event \<Rightarrow> bool" where
  "is_cache_write (Cache_set k v) = True"
| "is_cache_write (Cache_set_many kvs t) = True"
| "is_cache_write (Cache_add k v) = True"
| "is_cache_write (Cache_delete_many ks) = True"
| "is_cache_write e = False"

fun is_notification :: "event \<Rightarrow> bool" where
  "is_notification (Config_updated k old new) = True"
| "is_notification e = False"

definition count_events :: "(event \<Rightarrow> bool) \<Rightarrow> event list \<Rightarrow> nat" where
  "count_events P evs = length (filter P evs)"

section \<open>Concrete configurations\<close>

text \<open>
  The configuration of the spec's example: a cache that holds \<open>A\<close>, a store that
  holds \<open>A\<close> and \<open>B\<close>.
\<close>

definition example_backend :: backend where
  "example_backend =
     \<lparr>prefix = ''constance:'', autofill_timeout = Some 86400, has_cache = True,
      CONFIG = [''A'', ''B'']\<rparr>"

definition outage_state :: state where
  "outage_state =
     \<lparr>cache = [''constance:A'' \<mapsto> PInt 1],
      rows = [(''constance:A'', PInt 1), (''constance:B'', PInt 2)],
      down = Some OperationalError, trace = []\<rparr>"

definition warm_state :: state where
  "warm_state =
     \<lparr>cache = [''constance:autofilled'' \<mapsto> PInt 1, ''constance:A'' \<mapsto> PInt 1],
      rows = [(''constance:A'', PInt 1), (''constance:B'', PInt 2)],
      down = None, trace = []\<rparr>"

definition example_state :: state where
  "example_state =
     \<lparr>cache = [''constance:A'' \<mapsto> PInt 1],
      rows = [(''constance:A'', PInt 1), (''constance:B'', PInt 2)],
      down = None, trace = []\<rparr>"

text \<open>
  A configuration in which a key of the registry has the name of the sentinel,
  \<^verbatim>\<open>autofilled\<close> (\<open>clash_backend\<close>, with an empty prefix); a cold cache
  over a table without a record of that name (\<open>cold_state\<close>) and over a table
  that stores \<open>0\<close> under it (\<open>clash_state\<close>).
\<close>

definition clash_backend :: backend where
  "clash_backend =
     \<lparr>prefix = [], autofill_timeout = Some 86400, has_cache = True,
      CONFIG = [''autofilled'', ''A'']\<rparr>"

definition cold_state :: state where
  "cold_state = \<lparr>cache = Map.empty, rows = [(''A'', PInt 1)], down = None, trace = []\<rparr>"

definition clash_state :: state where
  "clash_state =
     \<lparr>cache = Map.empty, rows = [(''autofilled'', PInt 0), (''A'', PInt 1)],
      down = None, trace = []\<rparr>"

text \<open>
  A schedule on which the two writers race: both look the key up before either creates
  it; the first then creates it, and the second runs to its end before the first goes on.
\<close>

definition race_schedule :: "bool list" where
  "race_schedule =
     [True, False, True, False,
      False, False, False, False, False, False, False, False,
      True, True, True, True, True, True, True, True]"

section \<open>Basic facts\<close>

declare mget.simps [simp del] autofill.simps [simp del]

lemmas model_defs =
  add_prefix_def autofill_cachekey_def timeout_unset_def emit_def new_events_def
  cache_get_def cache_get_many_def cache_set_def cache_set_many_def cache_add_def
  cache_delete_many_def db_get_def db_filter_def db_create_def db_save_def getitem_def
  mget_stored_def prefixed_keys_def get_def set_finish_def set_update_def set_value_def
  clear_def post_save_def mget_rest_def get_rest_def count_events_def List.map_filter_def Let_def
  example_backend_def example_state_def outage_state_def warm_state_def
  clash_backend_def cold_state_def clash_state_def

lemma emit_fields [simp]:
  "cache (emit e s) = cache s" "rows (emit e s) = rows s"
  "down (emit e s) = down s" "trace (emit e s) = trace s @ [e]"
  by (simp_all add: emit_def)

lemma new_events_app [simp]: "trace s' = trace s @ evs \<Longrightarrow> new_events s s' = evs"
  by (simp add: new_events_def)

lemma getitem_Some: "map_of d k = Some v \<Longrightarrow> getitem d k = Inr v"
  by (simp add: getitem_def)

lemma yield_items_ok:
  "fst ` set items \<subseteq> fst ` set keys \<Longrightarrow>
   yield_items keys items = Inr (map (\<lambda>(k, v). (the (map_of keys k), v)) items)"
proof (induction items)
  case Nil
  then show ?case by simp
next
  case (Cons p items)
  obtain k v where p: "p = (k, v)" by (cases p)
  from Cons.prems p have "k \<in> fst ` set keys" by simp
  then obtain r where "map_of keys k = Some r"
    by (metis domD dom_map_of_conv_image_fst)
  with Cons p show ?case by (simp add: getitem_Some)
qed

lemma mget_stored_up:
  "down s = None \<Longrightarrow>
   mget_stored keys s =
     (Inr (map (\<lambda>(k, v). (the (map_of keys k), v))
            (filter (\<lambda>r. fst r \<in> fst ` set keys) (rows s))),
      emit (Db_filter (map fst keys)) s)"
  by (simp add: mget_stored_def db_filter_def yield_items_ok image_subset_iff)

lemma mget_stored_down:
  "down s = Some f \<Longrightarrow> mget_stored keys s = (Inr [], emit (Db_filter (map fst keys)) s)"
  by (simp add: mget_stored_def db_filter_def)

lemma mget_stored_cases:
  "\<exists>out. mget_stored keys s = (Inr out, emit (Db_filter (map fst keys)) s)"
  by (cases "down s") (simp_all add: mget_stored_up mget_stored_down)

lemma mget_nofallback:
  "mget b keys False s =
     (if keys = [] then (Inr [], s) else mget_stored (prefixed_keys b keys) s)"
  by (simp add: mget.simps)

lemma mget_nofallback_cases:
  "\<exists>out s'. mget b keys False s = (Inr out, s') \<and> cache s' = cache s \<and> rows s' = rows s
     \<and> down s' = down s
     \<and> (trace s' = trace s \<or> trace s' = trace s @ [Db_filter (map fst (prefixed_keys b keys))])"
proof (cases "keys = []")
  case True
  then show ?thesis by (simp add: mget_nofallback)
next
  case False
  obtain out where "mget_stored (prefixed_keys b keys) s
      = (Inr out, emit (Db_filter (map fst (prefixed_keys b keys))) s)"
    using mget_stored_cases by blast
  with False show ?thesis by (simp add: mget_nofallback)
qed

lemma autofill_off:
  "timeout_unset (autofill_timeout b) \<or> \<not> has_cache b \<Longrightarrow>
   autofill b s = (Inr (), emit Autofill_invoked s)"
  by (auto simp add: autofill.simps Let_def)

lemma autofill_warm:
  "\<not> timeout_unset (autofill_timeout b) \<Longrightarrow> has_cache b \<Longrightarrow>
   cache s (add_prefix b autofill_cachekey) = Some v \<Longrightarrow> truthy v \<Longrightarrow>
   autofill b s =
     (Inr (), emit (Cache_get (add_prefix b autofill_cachekey)) (emit Autofill_invoked s))"
  by (simp add: autofill.simps Let_def cache_get_def)

lemma autofill_cold:
  assumes "\<not> timeout_unset (autofill_timeout b)" "has_cache b"
    and "\<not> truthy (case cache s (add_prefix b autofill_cachekey) of None \<Rightarrow> PNone | Some v \<Rightarrow> v)"
    and "mget b (CONFIG b) False
           (emit (Cache_get (add_prefix b autofill_cachekey)) (emit Autofill_invoked s))
         = (Inr pairs, s2)"
  shows "autofill b s =
     (Inr (), cache_set_many
        (fold (\<lambda>(key, value) d. AList.update (add_prefix b key) value d) pairs
           [(add_prefix b autofill_cachekey, PInt 1)])
        (autofill_timeout b) s2)"
  using assms by (simp add: autofill.simps Let_def cache_get_def)

lemma autofill_shape:
  "\<exists>evs s'. autofill b s = (Inr (), s') \<and> rows s' = rows s \<and> down s' = down s
     \<and> trace s' = trace s @ Autofill_invoked # evs
     \<and> (\<forall>e \<in> set evs. \<not> is_batch_get e \<and> e \<noteq> Autofill_invoked
            \<and> \<not> is_notification e \<and> \<not> is_store_write e)"
proof (cases "timeout_unset (autofill_timeout b) \<or> \<not> has_cache b")
  case True
  then show ?thesis by (simp add: autofill_off)
next
  case off: False
  let ?sk = "add_prefix b autofill_cachekey"
  let ?s1 = "emit (Cache_get ?sk) (emit Autofill_invoked s)"
  show ?thesis
  proof (cases "truthy (case cache s ?sk of None \<Rightarrow> PNone | Some v \<Rightarrow> v)")
    case True
    then obtain v where "cache s ?sk = Some v" "truthy v"
      by (auto split: option.splits)
    with off show ?thesis by (simp add: autofill_warm)
  next
    case False
    obtain pairs s2 where m: "mget b (CONFIG b) False ?s1 = (Inr pairs, s2)"
      and fr: "cache s2 = cache ?s1" "rows s2 = rows ?s1" "down s2 = down ?s1"
      and tr: "trace s2 = trace ?s1 \<or>
               trace s2 = trace ?s1 @ [Db_filter (map fst (prefixed_keys b (CONFIG b)))]"
      using mget_nofallback_cases by blast
    from off False m have "autofill b s =
       (Inr (), cache_set_many
        (fold (\<lambda>(key, value) d. AList.update (add_prefix b key) value d) pairs
           [(?sk, PInt 1)]) (autofill_timeout b) s2)"
      by (simp add: autofill_cold)
    with fr tr show ?thesis
      by (auto simp add: cache_set_many_def)
  qed
qed


lemma cache_get_many_fields [simp]:
  "snd (cache_get_many ks s) = emit (Cache_get_many ks) s"
  "fst ` set (fst (cache_get_many ks s)) \<subseteq> set ks"
  by (auto simp add: cache_get_many_def List.map_filter_def)

lemma mget_hit:
  assumes "has_cache b" "keys \<noteq> []"
    and "length (fst (cache_get_many (map fst (prefixed_keys b keys)) s))
           = length (prefixed_keys b keys)"
  shows "mget b keys True s =
     mget_rest (prefixed_keys b keys) (fst (cache_get_many (map fst (prefixed_keys b keys)) s))
       (emit (Cache_get_many (map fst (prefixed_keys b keys))) s)"
  using assms
  by (simp add: mget.simps [of b keys True s] Let_def mget_rest_def cache_get_many_def)

lemma mget_miss:
  assumes "has_cache b" "keys \<noteq> []"
    and "length (fst (cache_get_many (map fst (prefixed_keys b keys)) s))
           \<noteq> length (prefixed_keys b keys)"
    and "autofill b (emit (Cache_get_many (map fst (prefixed_keys b keys))) s) = (Inr (), s2)"
  shows "mget b keys True s =
     mget_rest (prefixed_keys b keys) (fst (cache_get_many (map fst (prefixed_keys b keys)) s2))
       (emit (Cache_get_many (map fst (prefixed_keys b keys))) s2)"
  using assms
  by (simp add: mget.simps [of b keys True s] Let_def mget_rest_def cache_get_many_def)

lemma mget_rest_shape:
  assumes "fst ` set vals \<subseteq> fst ` set keys"
  shows "\<exists>out2 s'. mget_rest keys vals s =
            (Inr (map (\<lambda>(k, v). (the (map_of keys k), v)) vals @ out2), s')
     \<and> cache s' = cache s \<and> rows s' = rows s \<and> down s' = down s
     \<and> (trace s' = trace s \<or> (\<exists>ks. trace s' = trace s @ [Db_filter ks]))"
proof -
  let ?keys' = "filter (\<lambda>(key, value). key \<notin> fst ` set vals) keys"
  have y: "yield_items keys vals = Inr (map (\<lambda>(k, v). (the (map_of keys k), v)) vals)"
    using assms by (rule yield_items_ok)
  obtain out2 where st: "mget_stored ?keys' s = (Inr out2, emit (Db_filter (map fst ?keys')) s)"
    using mget_stored_cases by blast
  show ?thesis
  proof (cases "?keys' = []")
    case True
    with y show ?thesis by (simp add: mget_rest_def)
  next
    case False
    with y st show ?thesis by (simp add: mget_rest_def)
  qed
qed

lemma mget_cached_shape:
  assumes "has_cache b" "keys \<noteq> []"
  shows "\<exists>out evs s'. mget b keys True s = (Inr out, s')
     \<and> rows s' = rows s \<and> down s' = down s
     \<and> trace s' = trace s @ Cache_get_many (map fst (prefixed_keys b keys)) # evs
     \<and> (if length (fst (cache_get_many (map fst (prefixed_keys b keys)) s))
            \<noteq> length (prefixed_keys b keys)
         then count_events (\<lambda>e. e = Autofill_invoked) evs = 1 \<and> count_events is_batch_get evs = 1
         else count_events (\<lambda>e. e = Autofill_invoked) evs = 0 \<and> count_events is_batch_get evs = 0)"
proof -
  let ?keys = "prefixed_keys b keys"
  let ?ks = "map fst ?keys"
  let ?s1 = "emit (Cache_get_many ?ks) s"
  let ?v0 = "fst (cache_get_many ?ks s)"
  show ?thesis
  proof (cases "length ?v0 = length ?keys")
    case True
    have "fst ` set ?v0 \<subseteq> fst ` set ?keys"
      using cache_get_many_fields(2) [of ?ks s] by simp
    from mget_rest_shape [OF this, of ?s1] obtain out2 s' where
      r: "mget_rest ?keys ?v0 ?s1 = (Inr (map (\<lambda>(k, v). (the (map_of ?keys k), v)) ?v0 @ out2), s')"
      and fr: "rows s' = rows ?s1" "down s' = down ?s1"
      and tr: "trace s' = trace ?s1 \<or> (\<exists>ks. trace s' = trace ?s1 @ [Db_filter ks])"
      by blast
    from tr have "\<exists>evs. trace s' = trace s @ Cache_get_many ?ks # evs
        \<and> count_events (\<lambda>e. e = Autofill_invoked) evs = 0 \<and> count_events is_batch_get evs = 0"
      by (auto simp add: count_events_def)
    with True r fr show ?thesis
      using mget_hit [OF assms True] by auto
  next
    case False
    obtain evs s2 where a: "autofill b ?s1 = (Inr (), s2)"
      and fr2: "rows s2 = rows ?s1" "down s2 = down ?s1"
      and tr2: "trace s2 = trace ?s1 @ Autofill_invoked # evs"
      and ev: "\<forall>e \<in> set evs. \<not> is_batch_get e \<and> e \<noteq> Autofill_invoked
            \<and> \<not> is_notification e \<and> \<not> is_store_write e"
      using autofill_shape by blast
    let ?v1 = "fst (cache_get_many ?ks s2)"
    let ?s3 = "emit (Cache_get_many ?ks) s2"
    have "fst ` set ?v1 \<subseteq> fst ` set ?keys"
      using cache_get_many_fields(2) [of ?ks s2] by simp
    from mget_rest_shape [OF this, of ?s3] obtain out2 s' where
      r: "mget_rest ?keys ?v1 ?s3 = (Inr (map (\<lambda>(k, v). (the (map_of ?keys k), v)) ?v1 @ out2), s')"
      and fr: "rows s' = rows ?s3" "down s' = down ?s3"
      and tr: "trace s' = trace ?s3 \<or> (\<exists>ks. trace s' = trace ?s3 @ [Db_filter ks])"
      by blast
    have c0: "filter (\<lambda>e. e = Autofill_invoked) evs = []" "filter is_batch_get evs = []"
      using ev by (auto simp add: filter_empty_conv)
    from tr tr2 c0 have "\<exists>evs'. trace s' = trace s @ Cache_get_many ?ks # evs'
        \<and> count_events (\<lambda>e. e = Autofill_invoked) evs' = 1 \<and> count_events is_batch_get evs' = 1"
      by (auto simp add: count_events_def)
    with False r fr fr2 show ?thesis
      using mget_miss [OF assms False a] by auto
  qed
qed


lemma mget_uncached:
  "\<not> (has_cache b \<and> fallback) \<Longrightarrow>
   mget b keys fallback s =
     (if keys = [] then (Inr [], s) else mget_stored (prefixed_keys b keys) s)"
  by (auto simp add: mget.simps [of b keys fallback s] Let_def)

lemma mget_empty: "mget b [] fallback s = (Inr [], s)"
  by (simp add: mget.simps)

lemma new_events_same [simp]: "new_events s s = []"
  by (simp add: new_events_def)

section \<open>The batched read\<close>

text \<open>
  C7. Bounded cache retry in \<^verbatim>\<open>mget\<close>: with a cache configured and
  \<^verbatim>\<open>fallback=True\<close>, when the first batch-get returns fewer hits than there
  are requested keys, \<^verbatim>\<open>mget\<close> enters \<^verbatim>\<open>autofill\<close> exactly once
  and performs exactly one more batch-get (two in all); and whatever the arguments, a run
  of \<^verbatim>\<open>mget\<close> performs at most two batch-gets.
\<close>

theorem mget_bounded_retry:
  "(has_cache b \<and>
    length (fst (cache_get_many (map fst (prefixed_keys b keys)) s))
      < length (prefixed_keys b keys) \<longrightarrow>
      count_events (\<lambda>e. e = Autofill_invoked) (new_events s (snd (mget b keys True s))) = 1
      \<and> count_events is_batch_get (new_events s (snd (mget b keys True s))) = 2)
   \<and> count_events is_batch_get (new_events s (snd (mget b keys fallback s))) \<le> 2"
proof (intro conjI impI)
  assume h: "has_cache b \<and>
    length (fst (cache_get_many (map fst (prefixed_keys b keys)) s))
      < length (prefixed_keys b keys)"
  then have ne: "keys \<noteq> []" by (auto simp add: prefixed_keys_def)
  from h have c: "has_cache b" by simp
  from mget_cached_shape [OF c ne, of s] h obtain out evs s' where
    "mget b keys True s = (Inr out, s')"
    "trace s' = trace s @ Cache_get_many (map fst (prefixed_keys b keys)) # evs"
    "count_events (\<lambda>e. e = Autofill_invoked) evs = 1" "count_events is_batch_get evs = 1"
    by auto
  then show "count_events (\<lambda>e. e = Autofill_invoked) (new_events s (snd (mget b keys True s))) = 1"
    and "count_events is_batch_get (new_events s (snd (mget b keys True s))) = 2"
    by (simp_all add: count_events_def)
next
  show "count_events is_batch_get (new_events s (snd (mget b keys fallback s))) \<le> 2"
  proof (cases "keys = []")
    case True
    then show ?thesis by (simp add: mget_empty count_events_def)
  next
    case ne: False
    show ?thesis
    proof (cases "has_cache b \<and> fallback")
      case True
      then have c: "has_cache b" and f: "fallback = True" by simp_all
      from mget_cached_shape [OF c ne, of s] obtain out evs s' where
        "mget b keys True s = (Inr out, s')"
        "trace s' = trace s @ Cache_get_many (map fst (prefixed_keys b keys)) # evs"
        "count_events is_batch_get evs \<le> 1"
        by (auto split: if_splits)
      then show ?thesis by (simp add: f count_events_def)
    next
      case False
      obtain out where "mget_stored (prefixed_keys b keys) s
          = (Inr out, emit (Db_filter (map fst (prefixed_keys b keys))) s)"
        using mget_stored_cases by blast
      with False ne show ?thesis by (simp add: mget_uncached count_events_def)
    qed
  qed
qed

theorem mget_bounded_retry_witness:
  "has_cache example_backend \<and>
   length (fst (cache_get_many (map fst (prefixed_keys example_backend [''A'', ''B'']))
                  example_state))
     < length (prefixed_keys example_backend [''A'', ''B'']) \<and>
   count_events (\<lambda>e. e = Autofill_invoked)
     (new_events example_state (snd (mget example_backend [''A'', ''B''] True example_state))) = 1 \<and>
   count_events is_batch_get
     (new_events example_state (snd (mget example_backend [''A'', ''B''] True example_state))) = 2"
  using mget_bounded_retry [of example_backend "[''A'', ''B'']" example_state True]
  by (simp add: model_defs)

subsection \<open>What the batched read yields\<close>

lemma prefixed_fold_map_of:
  "map_of (fold (\<lambda>key d. AList.update (p @ key) key d) ks d) x =
     (if \<exists>k \<in> set ks. p @ k = x then Some (drop (length p) x) else map_of d x)"
proof (induction ks arbitrary: d)
  case Nil
  then show ?case by simp
next
  case (Cons k ks)
  show ?case by (auto simp add: Cons.IH AList.update_conv')
qed

lemma prefixed_keys_map_of:
  "map_of (prefixed_keys b ks) x = Some k \<longleftrightarrow> x = add_prefix b k \<and> k \<in> set ks"
  by (auto simp add: prefixed_keys_def add_prefix_def prefixed_fold_map_of)

lemma prefixed_keys_dom: "fst ` set (prefixed_keys b ks) = add_prefix b ` set ks"
proof -
  have "dom (map_of (prefixed_keys b ks)) = add_prefix b ` set ks"
    by (auto simp add: dom_def prefixed_keys_map_of)
  then show ?thesis by (simp add: dom_map_of_conv_image_fst)
qed

lemma prefixed_fold_distinct:
  "distinct (map fst d) \<Longrightarrow>
   distinct (map fst (fold (\<lambda>key d. AList.update (f key) key d) ks d))"
  by (induction ks arbitrary: d) (simp_all add: AList.distinct_update)

lemma prefixed_keys_distinct: "distinct (map fst (prefixed_keys b ks))"
  by (simp add: prefixed_keys_def prefixed_fold_distinct)

lemma prefixed_keys_raw:
  "k \<in> set ks \<Longrightarrow> the (map_of (prefixed_keys b ks) (add_prefix b k)) = k"
  using prefixed_keys_map_of [of b ks "add_prefix b k" k] by simp

lemma add_prefix_inj [simp]: "add_prefix b k = add_prefix b k' \<longleftrightarrow> k = k'"
  by (simp add: add_prefix_def)

lemma cache_get_many_hits:
  "set (fst (cache_get_many ks s)) = {(k, v). k \<in> set ks \<and> cache s k = Some v}"
proof -
  have "\<And>a v. a \<in> set ks \<Longrightarrow> cache s a = Some v \<Longrightarrow>
      (a, v) \<in> (\<lambda>x. the (map_option (Pair x) (cache s x))) ` {x \<in> set ks. \<exists>y. cache s x = Some y}"
    by (rule_tac x = a in image_eqI) simp_all
  then show ?thesis
    by (auto simp add: cache_get_many_def List.map_filter_def)
qed

lemma map_of_filter_keys:
  "map_of (filter (\<lambda>(k, v). P k) xs) k = (if P k then map_of xs k else None)"
  by (induction xs) auto

lemma mget_rest_up:
  assumes "fst ` set vals \<subseteq> fst ` set keys" "down s = None"
  shows "\<exists>s'. mget_rest keys vals s =
      (Inr (map (\<lambda>(k, v). (the (map_of keys k), v)) vals @
            map (\<lambda>(k, v). (the (map_of keys k), v))
              (filter (\<lambda>r. fst r \<in> fst ` set keys \<and> fst r \<notin> fst ` set vals) (rows s))), s')
     \<and> cache s' = cache s \<and> rows s' = rows s \<and> down s' = down s"
proof -
  define keys' where "keys' = filter (\<lambda>(key, value). key \<notin> fst ` set vals) keys"
  have y: "yield_items keys vals = Inr (map (\<lambda>(k, v). (the (map_of keys k), v)) vals)"
    using assms(1) by (rule yield_items_ok)
  have k': "\<And>k. k \<in> fst ` set keys' \<longleftrightarrow> k \<in> fst ` set keys \<and> k \<notin> fst ` set vals"
    unfolding keys'_def by force
  have m: "\<And>k. k \<notin> fst ` set vals \<Longrightarrow> map_of keys' k = map_of keys k"
    unfolding keys'_def by (simp add: map_of_filter_keys)
  have flt: "filter (\<lambda>r. fst r \<in> fst ` set keys') (rows s)
        = filter (\<lambda>r. fst r \<in> fst ` set keys \<and> fst r \<notin> fst ` set vals) (rows s)"
    by (rule filter_cong) (simp_all add: k')
  have same: "map (\<lambda>(k, v). (the (map_of keys' k), v))
                (filter (\<lambda>r. fst r \<in> fst ` set keys \<and> fst r \<notin> fst ` set vals) (rows s))
            = map (\<lambda>(k, v). (the (map_of keys k), v))
                (filter (\<lambda>r. fst r \<in> fst ` set keys \<and> fst r \<notin> fst ` set vals) (rows s))"
    by (rule map_cong) (auto simp add: m)
  have unf: "mget_rest keys vals s =
      (if keys' = [] then (Inr (map (\<lambda>(k, v). (the (map_of keys k), v)) vals), s)
       else (case mget_stored keys' s of
               (Inl e, s4) \<Rightarrow> (Inl e, s4)
             | (Inr out2, s4) \<Rightarrow> (Inr (map (\<lambda>(k, v). (the (map_of keys k), v)) vals @ out2), s4)))"
    by (simp add: mget_rest_def y keys'_def Let_def)
  show ?thesis
  proof (cases "keys' = []")
    case True
    with k' have "filter (\<lambda>r. fst r \<in> fst ` set keys \<and> fst r \<notin> fst ` set vals) (rows s) = []"
      by (simp add: filter_empty_conv)
    with True unf show ?thesis by simp
  next
    case False
    with unf assms(2) flt same show ?thesis
      by (simp add: mget_stored_up)
  qed
qed


lemma mget_cached_exact:
  assumes "has_cache b" "keys \<noteq> []"
  shows "\<exists>sc. mget b keys True s =
        mget_rest (prefixed_keys b keys)
          (fst (cache_get_many (map fst (prefixed_keys b keys)) sc))
          (emit (Cache_get_many (map fst (prefixed_keys b keys))) sc)
      \<and> rows sc = rows s \<and> down sc = down s"
proof (cases "length (fst (cache_get_many (map fst (prefixed_keys b keys)) s))
           = length (prefixed_keys b keys)")
  case True
  from mget_hit [OF assms True] show ?thesis by blast
next
  case False
  obtain evs s2 where a: "autofill b (emit (Cache_get_many (map fst (prefixed_keys b keys))) s)
        = (Inr (), s2)"
    and fr2: "rows s2 = rows (emit (Cache_get_many (map fst (prefixed_keys b keys))) s)"
       "down s2 = down (emit (Cache_get_many (map fst (prefixed_keys b keys))) s)"
    using autofill_shape by blast
  from mget_miss [OF assms False a] fr2 show ?thesis by auto
qed


lemma raw_pair:
  "k \<in> set ks \<Longrightarrow>
   (\<lambda>(x, v). (the (map_of (prefixed_keys b ks) x), v)) (add_prefix b k, v) = (k, v)"
  by (simp add: prefixed_keys_raw)

lemma mget_resolved:
  assumes up: "down s = None"
    and ne: "keys \<noteq> []"
  shows "\<exists>vals s'. mget b keys True s =
        (Inr (map (\<lambda>(x, v). (the (map_of (prefixed_keys b keys) x), v)) vals @
              map (\<lambda>(x, v). (the (map_of (prefixed_keys b keys) x), v))
               (filter (\<lambda>r. fst r \<in> add_prefix b ` set keys \<and> fst r \<notin> fst ` set vals) (rows s))),
         s')
      \<and> set vals = {(x, v). has_cache b \<and> x \<in> add_prefix b ` set keys \<and> cache s' x = Some v}"
proof (cases "has_cache b")
  case False
  let ?vals = "[] :: (string \<times> pyval) list"
  from False ne up have "mget b keys True s =
     (Inr (map (\<lambda>(x, v). (the (map_of (prefixed_keys b keys) x), v)) ?vals @
              map (\<lambda>(x, v). (the (map_of (prefixed_keys b keys) x), v))
               (filter (\<lambda>r. fst r \<in> add_prefix b ` set keys \<and> fst r \<notin> fst ` set ?vals) (rows s))),
      emit (Db_filter (map fst (prefixed_keys b keys))) s)"
    by (simp add: mget_uncached mget_stored_up prefixed_keys_dom)
  moreover have "set ?vals = {(x, v). has_cache b \<and> x \<in> add_prefix b ` set keys
      \<and> cache (emit (Db_filter (map fst (prefixed_keys b keys))) s) x = Some v}"
    using False by simp
  ultimately show ?thesis by blast
next
  case True
  let ?keys = "prefixed_keys b keys"
  let ?ks = "map fst ?keys"
  from mget_cached_exact [OF True ne, of s] obtain sc where
    m: "mget b keys True s = mget_rest ?keys (fst (cache_get_many ?ks sc)) (emit (Cache_get_many ?ks) sc)"
    and fr: "rows sc = rows s" "down sc = down s"
    by blast
  let ?vals = "fst (cache_get_many ?ks sc)"
  have sub: "fst ` set ?vals \<subseteq> fst ` set ?keys"
    using cache_get_many_fields(2) [of ?ks sc] by simp
  have d: "down (emit (Cache_get_many ?ks) sc) = None"
    using fr up by simp
  from mget_rest_up [OF sub d] obtain s' where
    r: "mget_rest ?keys ?vals (emit (Cache_get_many ?ks) sc) =
      (Inr (map (\<lambda>(k, v). (the (map_of ?keys k), v)) ?vals @
            map (\<lambda>(k, v). (the (map_of ?keys k), v))
              (filter (\<lambda>r. fst r \<in> fst ` set ?keys \<and> fst r \<notin> fst ` set ?vals)
                 (rows (emit (Cache_get_many ?ks) sc)))), s')"
    and c: "cache s' = cache (emit (Cache_get_many ?ks) sc)"
    by blast
  have v: "set ?vals = {(x, v). has_cache b \<and> x \<in> add_prefix b ` set keys \<and> cache s' x = Some v}"
    using True c by (simp add: cache_get_many_hits prefixed_keys_dom)
  from m r fr have e: "mget b keys True s =
        (Inr (map (\<lambda>(x, v). (the (map_of ?keys x), v)) ?vals @
              map (\<lambda>(x, v). (the (map_of ?keys x), v))
               (filter (\<lambda>r. fst r \<in> add_prefix b ` set keys \<and> fst r \<notin> fst ` set ?vals) (rows s))),
         s')"
    by (simp add: prefixed_keys_dom)
  show ?thesis
    by (rule exI [of _ ?vals], rule exI [of _ s'], rule conjI, rule e, rule v)
qed


section \<open>The invalidation handler\<close>

text \<open>
  C6. Invalidation behaviour: when a cache is configured and the save was not a fresh
  creation, \<^verbatim>\<open>clear\<close> deletes the cache entries of every registry key and of
  the sentinel in one \<^verbatim>\<open>delete_many\<close> and then runs
  \<^verbatim>\<open>autofill\<close> on the purged cache; when the save was a fresh creation it
  returns the state as it found it, so no cache operation is performed.
\<close>

theorem clear_invalidation:
  "(has_cache b \<and> \<not> created \<longrightarrow>
      (let keys = map (add_prefix b) (CONFIG b) @ [add_prefix b autofill_cachekey];
           purged = cache_delete_many keys s
       in clear b created s = autofill b purged
          \<and> (\<forall>k \<in> set (CONFIG b). cache purged (add_prefix b k) = None)
          \<and> cache purged (add_prefix b autofill_cachekey) = None
          \<and> take 2 (new_events s (snd (clear b created s)))
               = [Cache_delete_many keys, Autofill_invoked]))
   \<and> (created \<longrightarrow> clear b created s = (Inr (), s))"
proof (intro conjI impI)
  assume h: "has_cache b \<and> \<not> created"
  let ?keys = "map (add_prefix b) (CONFIG b) @ [add_prefix b autofill_cachekey]"
  let ?purged = "cache_delete_many ?keys s"
  have c: "clear b created s = autofill b ?purged"
    using h by (simp add: clear_def)
  obtain evs s' where a: "autofill b ?purged = (Inr (), s')"
    and tr: "trace s' = trace ?purged @ Autofill_invoked # evs"
    using autofill_shape by blast
  have t: "take 2 (new_events s (snd (clear b created s))) = [Cache_delete_many ?keys, Autofill_invoked]"
    using c a tr by (simp add: cache_delete_many_def)
  show "let keys = ?keys; purged = cache_delete_many keys s
       in clear b created s = autofill b purged
          \<and> (\<forall>k \<in> set (CONFIG b). cache purged (add_prefix b k) = None)
          \<and> cache purged (add_prefix b autofill_cachekey) = None
          \<and> take 2 (new_events s (snd (clear b created s)))
               = [Cache_delete_many keys, Autofill_invoked]"
    unfolding Let_def using c t by (simp add: cache_delete_many_def)
next
  assume created
  then show "clear b created s = (Inr (), s)" by (simp add: clear_def)
qed

theorem clear_invalidation_witness:
  "has_cache example_backend \<and> \<not> False \<and>
   cache (cache_delete_many [''constance:A'', ''constance:B'', ''constance:autofilled''] example_state)
      ''constance:A'' = None \<and>
   take 2 (new_events example_state (snd (clear example_backend False example_state)))
     = [Cache_delete_many [''constance:A'', ''constance:B'', ''constance:autofilled''],
        Autofill_invoked] \<and>
   clear example_backend True example_state = (Inr (), example_state)"
  using clear_invalidation [of example_backend False example_state]
    clear_invalidation [of example_backend True example_state]
  by (simp add: model_defs)

section \<open>Warm-up\<close>

text \<open>
  On a warm cache, that is, when the sentinel key holds a truthy value such as the
  \<open>1\<close> that \<^verbatim>\<open>autofill\<close> writes, a call of \<^verbatim>\<open>autofill\<close>
  returns without any call to the durable store and without any write to the cache.
\<close>

lemma autofill_warm_noop:
  assumes "cache s (add_prefix b autofill_cachekey) = Some v" and "truthy v"
  shows "fst (autofill b s) = Inr ()
     \<and> cache (snd (autofill b s)) = cache s
     \<and> rows (snd (autofill b s)) = rows s
     \<and> count_events is_store_call (new_events s (snd (autofill b s))) = 0
     \<and> count_events is_cache_write (new_events s (snd (autofill b s))) = 0"
proof (cases "timeout_unset (autofill_timeout b) \<or> \<not> has_cache b")
  case True
  then show ?thesis by (simp add: autofill_off count_events_def)
next
  case False
  with assms show ?thesis by (simp add: autofill_warm count_events_def)
qed


lemma autofill_warm_noop_example:
  "fst (autofill example_backend warm_state) = Inr () \<and>
   new_events warm_state (snd (autofill example_backend warm_state))
     = [Autofill_invoked, Cache_get ''constance:autofilled'']"
  by (simp add: model_defs autofill.simps)

section \<open>An unavailable store\<close>

lemma get_nocache:
  "\<not> has_cache b \<Longrightarrow> get b K s = get_rest b (add_prefix b K) PNone s"
  by (simp add: get_def get_rest_def Let_def)

lemma get_hit:
  "has_cache b \<Longrightarrow> cache s (add_prefix b K) = Some v \<Longrightarrow> v \<noteq> PNone \<Longrightarrow>
   get b K s = (Inr v, emit (Cache_get (add_prefix b K)) s)"
  by (simp add: get_def Let_def cache_get_def)

lemma get_miss:
  "has_cache b \<Longrightarrow> cache s (add_prefix b K) = None \<or> cache s (add_prefix b K) = Some PNone \<Longrightarrow>
   autofill b (emit (Cache_get (add_prefix b K)) s) = (Inr (), s2) \<Longrightarrow>
   get b K s =
     get_rest b (add_prefix b K) (fst (cache_get (add_prefix b K) s2))
       (emit (Cache_get (add_prefix b K)) s2)"
  by (auto simp add: get_def get_rest_def Let_def cache_get_def
        split: prod.splits sum.splits error.splits)




lemma set_unavailable:
  "down s = Some f \<Longrightarrow>
   set_value b K V s = (Inr Returned_early, emit (Db_get (add_prefix b K)) s)"
  by (simp add: set_value_def db_get_def)





section \<open>Writing a value\<close>

lemma clear_shape:
  "\<exists>evs s'. clear b created s = (Inr (), s') \<and> rows s' = rows s \<and> down s' = down s
     \<and> trace s' = trace s @ evs
     \<and> (\<forall>e \<in> set evs. \<not> is_notification e \<and> \<not> is_store_write e)"
proof (cases "has_cache b \<and> \<not> created")
  case False
  then show ?thesis by (auto simp add: clear_def)
next
  case True
  let ?keys = "map (add_prefix b) (CONFIG b) @ [add_prefix b autofill_cachekey]"
  obtain evs s' where "autofill b (cache_delete_many ?keys s) = (Inr (), s')"
    "rows s' = rows (cache_delete_many ?keys s)" "down s' = down (cache_delete_many ?keys s)"
    "trace s' = trace (cache_delete_many ?keys s) @ Autofill_invoked # evs"
    "\<forall>e \<in> set evs. \<not> is_batch_get e \<and> e \<noteq> Autofill_invoked
            \<and> \<not> is_notification e \<and> \<not> is_store_write e"
    using autofill_shape by blast
  with True show ?thesis
    by (simp add: clear_def cache_delete_many_def)
qed

lemma post_save_created: "post_save b True s = (Inr (), s)"
  by (simp add: post_save_def clear_def)

lemma post_save_shape:
  "\<exists>evs s'. post_save b created s = (Inr (), s') \<and> rows s' = rows s \<and> down s' = down s
     \<and> trace s' = trace s @ evs
     \<and> (\<forall>e \<in> set evs. \<not> is_notification e \<and> \<not> is_store_write e)"
  unfolding post_save_def by (rule clear_shape)

lemma set_value_new:
  assumes "down s = None" "map_of (rows s) (add_prefix b K) = None"
  shows "set_value b K V s =
     set_finish b (add_prefix b K) V PNone
       (emit (Db_create (add_prefix b K) V)
          ((emit (Db_get (add_prefix b K)) s)\<lparr>rows := rows s @ [(add_prefix b K, V)]\<rparr>))"
proof -
  from assms(2) have "add_prefix b K \<notin> fst ` set (rows s)"
    by (simp add: map_of_eq_None_iff)
  with assms show ?thesis
    by (simp add: set_value_def db_get_def db_create_def Let_def post_save_created)
qed

lemma set_value_existing:
  assumes "down s = None" "map_of (rows s) (add_prefix b K) = Some v0"
  shows "\<exists>evs s2. set_value b K V s = set_finish b (add_prefix b K) V v0 s2
     \<and> rows s2 = AList.update (add_prefix b K) V (rows s) \<and> down s2 = None
     \<and> trace s2 = trace s @ Db_get (add_prefix b K) # Db_save (add_prefix b K) V # evs
     \<and> (\<forall>e \<in> set evs. \<not> is_notification e \<and> \<not> is_store_write e)"
proof -
  let ?k = "add_prefix b K"
  let ?s1 = "emit (Db_save ?k V) ((emit (Db_get ?k) s)\<lparr>rows := AList.update ?k V (rows s)\<rparr>)"
  obtain evs s2 where p: "post_save b False ?s1 = (Inr (), s2)"
    and fr: "rows s2 = rows ?s1" "down s2 = down ?s1"
    and tr: "trace s2 = trace ?s1 @ evs"
    and ev: "\<forall>e \<in> set evs. \<not> is_notification e \<and> \<not> is_store_write e"
    using post_save_shape by blast
  from assms p have "set_value b K V s = set_finish b ?k V v0 s2"
    by (simp add: set_value_def set_update_def db_get_def db_save_def Let_def)
  with fr tr ev assms(1) show ?thesis by auto
qed

lemma set_value_Finished_up:
  "set_value b K V s = (Inr Finished, s') \<Longrightarrow> down s = None"
  by (cases "down s") (simp_all add: set_unavailable)

text \<open>
  C2, amended. Notification payload: every \<^verbatim>\<open>set(K, V)\<close> that runs to its
  end emits exactly one change notification, as its last call, after the store write
  and, with a cache, right after the cache write; it carries the prefixed key
  (\<^verbatim>\<open>_prefix\<close> followed by \<open>K\<close>), the new value \<open>V\<close>, and as old
  value the absent-marker when \<open>K\<close> had no durable record and the record's prior
  value otherwise.
\<close>

theorem set_notification:
  assumes "set_value b K V s = (Inr Finished, s')"
  shows "filter is_notification (new_events s s') =
           [Config_updated (add_prefix b K)
              (case map_of (rows s) (add_prefix b K) of None \<Rightarrow> PNone | Some v0 \<Rightarrow> v0) V]
     \<and> (\<exists>evs. new_events s s' =
           Db_get (add_prefix b K)
           # (case map_of (rows s) (add_prefix b K) of
                None \<Rightarrow> Db_create (add_prefix b K) V
              | Some v0 \<Rightarrow> Db_save (add_prefix b K) V)
           # evs
           @ (if has_cache b then [Cache_set (add_prefix b K) V] else [])
           @ [Config_updated (add_prefix b K)
                (case map_of (rows s) (add_prefix b K) of None \<Rightarrow> PNone | Some v0 \<Rightarrow> v0) V]
         \<and> (\<forall>e \<in> set evs. \<not> is_notification e \<and> \<not> is_store_write e))"
proof -
  have up: "down s = None" using assms by (rule set_value_Finished_up)
  show ?thesis
  proof (cases "map_of (rows s) (add_prefix b K)")
    case None
    from assms have "new_events s s' =
        Db_get (add_prefix b K) # Db_create (add_prefix b K) V # []
        @ (if has_cache b then [Cache_set (add_prefix b K) V] else [])
        @ [Config_updated (add_prefix b K) PNone V]"
      unfolding set_value_new [OF up None]
      by (auto simp add: set_finish_def cache_set_def emit_def new_events_def)
    then show ?thesis by (simp add: None)
  next
    case (Some v0)
    from set_value_existing [OF up Some, of V] obtain evs s2 where
      e: "set_value b K V s = set_finish b (add_prefix b K) V v0 s2"
      and tr: "trace s2 = trace s @ Db_get (add_prefix b K) # Db_save (add_prefix b K) V # evs"
      and ev: "\<forall>e \<in> set evs. \<not> is_notification e \<and> \<not> is_store_write e"
      by blast
    from assms e tr have n: "new_events s s' =
        Db_get (add_prefix b K) # Db_save (add_prefix b K) V # evs
        @ (if has_cache b then [Cache_set (add_prefix b K) V] else [])
        @ [Config_updated (add_prefix b K) v0 V]"
      by (auto simp add: set_finish_def cache_set_def new_events_def)
    have f: "filter is_notification evs = []"
      using ev by (simp add: filter_empty_conv)
    from n f ev show ?thesis by (auto simp add: Some)
  qed
qed

text \<open>
  C2 as stated says that the notification carries the key as the caller gave it. With a
  non-empty prefix the notification carries the prefixed key.
\<close>

theorem set_notification_counterexample:
  "fst (set_value example_backend ''B'' (PInt 7) example_state) = Inr Finished \<and>
   filter is_notification
     (new_events example_state (snd (set_value example_backend ''B'' (PInt 7) example_state)))
     = [Config_updated ''constance:B'' (PInt 2) (PInt 7)] \<and>
   Config_updated ''constance:B'' (PInt 2) (PInt 7) \<noteq> Config_updated ''B'' (PInt 2) (PInt 7)"
  by (simp add: model_defs mget.simps autofill.simps)

theorem set_notification_witness:
  "set_value example_backend ''Z'' (PInt 7) example_state
     = (Inr Finished, snd (set_value example_backend ''Z'' (PInt 7) example_state)) \<and>
   new_events example_state (snd (set_value example_backend ''Z'' (PInt 7) example_state))
     = [Db_get ''constance:Z'', Db_create ''constance:Z'' (PInt 7),
        Cache_set ''constance:Z'' (PInt 7), Config_updated ''constance:Z'' PNone (PInt 7)] \<and>
   new_events example_state (snd (set_value example_backend ''B'' (PInt 7) example_state))
     = [Db_get ''constance:B'', Db_save ''constance:B'' (PInt 7),
        Cache_delete_many [''constance:A'', ''constance:B'', ''constance:autofilled''],
        Autofill_invoked, Cache_get ''constance:autofilled'',
        Db_filter [''constance:A'', ''constance:B''],
        Cache_set_many
          [(''constance:autofilled'', PInt 1), (''constance:A'', PInt 1),
           (''constance:B'', PInt 7)] (Some 86400),
        Cache_set ''constance:B'' (PInt 7),
        Config_updated ''constance:B'' (PInt 2) (PInt 7)]"
  using set_notification [of example_backend "''Z''" "PInt 7" example_state
            "snd (set_value example_backend ''Z'' (PInt 7) example_state)"]
    set_notification [of example_backend "''B''" "PInt 7" example_state
            "snd (set_value example_backend ''B'' (PInt 7) example_state)"]
  by (simp add: model_defs mget.simps autofill.simps)

section \<open>The sentinel shares the namespace of the keys\<close>

text \<open>
  \<^verbatim>\<open>autofill\<close> stores its sentinel under the cache key
  \<^verbatim>\<open>add_prefix("autofilled")\<close>, which is also the cache key of a
  configuration value named \<^verbatim>\<open>autofilled\<close>. The lemmas of this section say
  what a warm-up writes, and what \<^verbatim>\<open>get\<close> and \<^verbatim>\<open>set\<close> do for
  every other key; the theorems evaluate the code on a key of that name.
\<close>

subsection \<open>What a warm-up writes\<close>

lemma fold_update_map_of:
  "map_of (fold (\<lambda>(key, value) d. AList.update (f key) value d) pairs d0)
     = map_of d0 ++ map_of (rev (map (\<lambda>(k, v). (f k, v)) pairs))"
proof (induction pairs arbitrary: d0)
  case Nil
  then show ?case by simp
next
  case (Cons p pairs)
  obtain k v where p: "p = (k, v)" by (cases p)
  show ?case
    by (simp add: p Cons.IH AList.update_conv' map_add_upd_left [symmetric] del: map_add_assoc)
       (simp add: map_add_def fun_eq_iff split: option.splits)
qed

lemma fold_upd_map_add:
  "fold (\<lambda>(k, v) m. m(k \<mapsto> v)) kvs m = m ++ map_of (rev kvs)"
proof (induction kvs arbitrary: m)
  case Nil
  then show ?case by simp
next
  case (Cons p kvs)
  obtain k v where p: "p = (k, v)" by (cases p)
  have "fold (\<lambda>(k, v) m. m(k \<mapsto> v)) (p # kvs) m = fold (\<lambda>(k, v) m. m(k \<mapsto> v)) kvs (m(k \<mapsto> v))"
    by (simp add: p)
  also have "\<dots> = m(k \<mapsto> v) ++ map_of (rev kvs)"
    by (rule Cons.IH)
  also have "\<dots> = m ++ map_of (rev (p # kvs))"
    by (simp add: p fun_eq_iff map_add_def split: option.splits)
  finally show ?case .
qed

lemma map_of_rev_distinct: "distinct (map fst xs) \<Longrightarrow> map_of (rev xs) = map_of xs"
proof (induction xs)
  case Nil
  then show ?case by simp
next
  case (Cons p xs)
  obtain k v where p: "p = (k, v)" by (cases p)
  from Cons.prems p have "k \<notin> fst ` set xs" by simp
  then have "map_of xs k = None" by (simp add: map_of_eq_None_iff)
  with Cons p show ?case
    by (auto simp add: fun_eq_iff map_add_def split: option.splits)
qed

lemma fold_update_distinct:
  "distinct (map fst d0) \<Longrightarrow>
   distinct (map fst (fold (\<lambda>(key, value) d. AList.update (f key) value d) pairs d0))"
  by (induction pairs arbitrary: d0) (auto simp add: AList.distinct_update)

lemma reprefix_scanned:
  "map (\<lambda>(k, v). (add_prefix b k, v))
     (map (\<lambda>(x, v). (the (map_of (prefixed_keys b ks) x), v))
        (filter (\<lambda>r. fst r \<in> fst ` set (prefixed_keys b ks)) rs))
   = filter (\<lambda>r. fst r \<in> add_prefix b ` set ks) rs"
proof (induction rs)
  case Nil
  then show ?case by simp
next
  case (Cons r rs)
  obtain x v where r: "r = (x, v)" by (cases r)
  show ?case
  proof (cases "x \<in> add_prefix b ` set ks")
    case True
    then obtain k where "k \<in> set ks" "x = add_prefix b k" by blast
    then have "add_prefix b (the (map_of (prefixed_keys b ks) x)) = x"
      by (simp add: prefixed_keys_raw)
    with True Cons r show ?thesis by (simp add: prefixed_keys_dom)
  next
    case False
    with Cons r show ?thesis by (simp add: prefixed_keys_dom)
  qed
qed

lemma autofill_cold_cache:
  assumes "\<not> timeout_unset (autofill_timeout b)" "has_cache b"
    and "\<not> truthy (case cache s (add_prefix b autofill_cachekey) of None \<Rightarrow> PNone | Some v \<Rightarrow> v)"
  shows "cache (snd (autofill b s)) =
           (cache s)(add_prefix b autofill_cachekey \<mapsto> PInt 1) ++
           map_of (rev (if down s = None
                        then filter (\<lambda>r. fst r \<in> add_prefix b ` set (CONFIG b)) (rows s)
                        else []))"
proof -
  let ?sk = "add_prefix b autofill_cachekey"
  let ?s1 = "emit (Cache_get ?sk) (emit Autofill_invoked s)"
  let ?scanned = "if down s = None
                  then filter (\<lambda>r. fst r \<in> add_prefix b ` set (CONFIG b)) (rows s) else []"
  have "\<exists>pairs s2. mget b (CONFIG b) False ?s1 = (Inr pairs, s2) \<and> cache s2 = cache s
          \<and> map (\<lambda>(k, v). (add_prefix b k, v)) pairs = ?scanned"
  proof (cases "CONFIG b = []")
    case True
    then show ?thesis by (simp add: mget_nofallback)
  next
    case ne: False
    show ?thesis
    proof (cases "down s")
      case None
      with ne show ?thesis
        by (simp add: mget_nofallback mget_stored_up reprefix_scanned del: map_map)
    next
      case (Some f)
      with ne show ?thesis
        by (simp add: mget_nofallback mget_stored_down)
    qed
  qed
  then obtain pairs s2 where m: "mget b (CONFIG b) False ?s1 = (Inr pairs, s2)"
    and c2: "cache s2 = cache s"
    and sc: "map (\<lambda>(k, v). (add_prefix b k, v)) pairs = ?scanned"
    by blast
  let ?av = "fold (\<lambda>(key, value) d. AList.update (add_prefix b key) value d) pairs [(?sk, PInt 1)]"
  have a: "autofill b s = (Inr (), cache_set_many ?av (autofill_timeout b) s2)"
    using assms m by (rule autofill_cold)
  have d: "distinct (map fst ?av)"
    by (rule fold_update_distinct) simp
  have "map_of (rev ?av) = map_of ?av"
    using d by (rule map_of_rev_distinct)
  also have "\<dots> = map_of [(?sk, PInt 1)] ++ map_of (rev ?scanned)"
    unfolding sc [symmetric] by (rule fold_update_map_of)
  finally have av: "map_of (rev ?av) = map_of [(?sk, PInt 1)] ++ map_of (rev ?scanned)" .
  have "cache (snd (autofill b s)) = cache s ++ map_of (rev ?av)"
    by (simp add: a cache_set_many_def fold_upd_map_add c2)
  also have "\<dots> = (cache s)(?sk \<mapsto> PInt 1) ++ map_of (rev ?scanned)"
    unfolding av by (simp add: fun_eq_iff map_add_def split: option.splits)
  finally show ?thesis .
qed


lemma autofill_cache_at:
  assumes x: "x \<noteq> add_prefix b autofill_cachekey"
    and d: "distinct (map fst (rows s))"
  shows "cache (snd (autofill b s)) x = cache s x \<or>
         (down s = None \<and> map_of (rows s) x \<noteq> None \<and>
          cache (snd (autofill b s)) x = map_of (rows s) x)"
proof (cases "timeout_unset (autofill_timeout b) \<or> \<not> has_cache b")
  case True
  then show ?thesis by (simp add: autofill_off)
next
  case off: False
  let ?sk = "add_prefix b autofill_cachekey"
  show ?thesis
  proof (cases "truthy (case cache s ?sk of None \<Rightarrow> PNone | Some v \<Rightarrow> v)")
    case True
    then obtain v where "cache s ?sk = Some v" "truthy v"
      by (auto split: option.splits)
    with off show ?thesis by (simp add: autofill_warm)
  next
    case False
    let ?scanned = "if down s = None
                  then filter (\<lambda>r. fst r \<in> add_prefix b ` set (CONFIG b)) (rows s) else []"
    from off False have c: "cache (snd (autofill b s)) =
           (cache s)(?sk \<mapsto> PInt 1) ++ map_of (rev ?scanned)"
      by (intro autofill_cold_cache) simp_all
    show ?thesis
    proof (cases "map_of (rev ?scanned) x")
      case None
      with c x show ?thesis by (simp add: map_add_def)
    next
      case (Some v)
      then have "(x, v) \<in> set (rev ?scanned)" by (rule map_of_SomeD)
      then have up: "down s = None" and "(x, v) \<in> set (rows s)"
        by (auto split: if_splits)
      with d have "map_of (rows s) x = Some v" by simp
      with c Some up show ?thesis by (simp add: map_add_def)
    qed
  qed
qed

lemma autofill_writes_sentinel:
  assumes "\<not> timeout_unset (autofill_timeout b)" "has_cache b"
    and "\<not> truthy (case cache s (add_prefix b autofill_cachekey) of None \<Rightarrow> PNone | Some v \<Rightarrow> v)"
    and "autofill_cachekey \<notin> set (CONFIG b) \<or> down s \<noteq> None
          \<or> add_prefix b autofill_cachekey \<notin> fst ` set (rows s)"
  shows "cache (snd (autofill b s)) (add_prefix b autofill_cachekey) = Some (PInt 1)"
proof -
  let ?sk = "add_prefix b autofill_cachekey"
  let ?scanned = "if down s = None
                  then filter (\<lambda>r. fst r \<in> add_prefix b ` set (CONFIG b)) (rows s) else []"
  have "?sk \<notin> fst ` set (rev ?scanned)"
    using assms(4) by (auto simp add: image_iff)
  then have "map_of (rev ?scanned) ?sk = None"
    by (subst map_of_eq_None_iff)
  then show ?thesis
    unfolding autofill_cold_cache [OF assms(1-3)] by (simp add: map_add_def)
qed

lemma autofill_failed_scan:
  assumes "\<not> timeout_unset (autofill_timeout b)" "has_cache b"
    and "\<not> truthy (case cache s (add_prefix b autofill_cachekey) of None \<Rightarrow> PNone | Some v \<Rightarrow> v)"
    and "down s \<noteq> None \<or> (\<forall>k \<in> set (CONFIG b). add_prefix b k \<notin> fst ` set (rows s))"
  shows "cache (snd (autofill b s)) = (cache s)(add_prefix b autofill_cachekey \<mapsto> PInt 1)"
proof -
  have "(if down s = None
         then filter (\<lambda>r. fst r \<in> add_prefix b ` set (CONFIG b)) (rows s) else []) = []"
    using assms(4) by (force simp add: filter_empty_conv)
  then show ?thesis
    unfolding autofill_cold_cache [OF assms(1-3)] by simp
qed

lemma autofill_cold_trace:
  assumes "\<not> timeout_unset (autofill_timeout b)" "has_cache b"
    and "\<not> truthy (case cache s (add_prefix b autofill_cachekey) of None \<Rightarrow> PNone | Some v \<Rightarrow> v)"
  shows "\<exists>av. trace (snd (autofill b s)) =
           trace s @ [Autofill_invoked, Cache_get (add_prefix b autofill_cachekey)]
             @ (if CONFIG b = [] then [] else [Db_filter (map fst (prefixed_keys b (CONFIG b)))])
             @ [Cache_set_many av (autofill_timeout b)]"
proof -
  let ?sk = "add_prefix b autofill_cachekey"
  let ?s1 = "emit (Cache_get ?sk) (emit Autofill_invoked s)"
  have "\<exists>pairs s2. mget b (CONFIG b) False ?s1 = (Inr pairs, s2)
          \<and> trace s2 = trace ?s1 @
               (if CONFIG b = [] then [] else [Db_filter (map fst (prefixed_keys b (CONFIG b)))])"
  proof (cases "CONFIG b = []")
    case True
    then show ?thesis by (simp add: mget_nofallback)
  next
    case False
    obtain out where "mget_stored (prefixed_keys b (CONFIG b)) ?s1
        = (Inr out, emit (Db_filter (map fst (prefixed_keys b (CONFIG b)))) ?s1)"
      using mget_stored_cases by blast
    with False show ?thesis by (simp add: mget_nofallback)
  qed
  then obtain pairs s2 where m: "mget b (CONFIG b) False ?s1 = (Inr pairs, s2)"
    and t: "trace s2 = trace ?s1 @
               (if CONFIG b = [] then [] else [Db_filter (map fst (prefixed_keys b (CONFIG b)))])"
    by blast
  from autofill_cold [OF assms m] t show ?thesis
    by (simp add: cache_set_many_def)
qed

text \<open>
  Two calls of \<^verbatim>\<open>autofill\<close> in a row on a cold cache scan the store once
  (not at all if the registry is empty), provided the first scan returns no record under
  the sentinel's cache key.
\<close>

lemma autofill_twice_scans_once:
  assumes off: "\<not> timeout_unset (autofill_timeout b)" "has_cache b"
    and cold: "\<not> truthy (case cache s (add_prefix b autofill_cachekey) of None \<Rightarrow> PNone | Some v \<Rightarrow> v)"
    and free: "autofill_cachekey \<notin> set (CONFIG b) \<or> down s \<noteq> None
          \<or> add_prefix b autofill_cachekey \<notin> fst ` set (rows s)"
  shows "count_events is_store_scan
           (new_events s (snd (autofill b (snd (autofill b s)))))
         = (if CONFIG b = [] then 0 else 1)"
proof -
  let ?sk = "add_prefix b autofill_cachekey"
  let ?s' = "snd (autofill b s)"
  from autofill_cold_trace [OF off cold] obtain av where
    t1: "trace ?s' = trace s @ [Autofill_invoked, Cache_get ?sk]
             @ (if CONFIG b = [] then [] else [Db_filter (map fst (prefixed_keys b (CONFIG b)))])
             @ [Cache_set_many av (autofill_timeout b)]"
    by blast
  have "cache ?s' ?sk = Some (PInt 1)"
    using off cold free by (rule autofill_writes_sentinel)
  moreover have "truthy (PInt 1)" by simp
  ultimately have "autofill b ?s' = (Inr (), emit (Cache_get ?sk) (emit Autofill_invoked ?s'))"
    using off by (intro autofill_warm)
  with t1 show ?thesis
    by (simp add: new_events_def count_events_def)
qed

subsection \<open>Reading a key that is not the sentinel's\<close>

lemma get_rest_absent:
  assumes "down s \<noteq> None \<or> map_of (rows s) k = None \<or> map_of (rows s) k = Some PNone"
  shows "fst (get_rest b k PNone s) = Inr PNone"
    and "\<exists>evs. trace (snd (get_rest b k PNone s)) = trace s @ Db_get k # evs"
  using assms
  by (auto simp add: get_rest_def db_get_def cache_add_def split: option.splits)

lemma get_absent_marker:
  assumes K: "K \<noteq> autofill_cachekey"
    and d: "distinct (map fst (rows s))"
    and c: "\<not> has_cache b \<or> cache s (add_prefix b K) = None \<or> cache s (add_prefix b K) = Some PNone"
    and r: "down s \<noteq> None \<or> map_of (rows s) (add_prefix b K) = None
              \<or> map_of (rows s) (add_prefix b K) = Some PNone"
  shows "fst (get b K s) = Inr PNone
     \<and> Db_get (add_prefix b K) \<in> set (new_events s (snd (get b K s)))
     \<and> (has_cache b \<longrightarrow> Autofill_invoked \<in> set (new_events s (snd (get b K s))))"
proof (cases "has_cache b")
  case False
  from get_rest_absent [OF r, of b] False show ?thesis
    by (auto simp add: get_nocache)
next
  case True
  let ?k = "add_prefix b K"
  let ?s1 = "emit (Cache_get ?k) s"
  from True c have miss: "cache s ?k = None \<or> cache s ?k = Some PNone" by simp
  obtain evs s2 where a: "autofill b ?s1 = (Inr (), s2)"
    and fr: "rows s2 = rows ?s1" "down s2 = down ?s1"
    and tr: "trace s2 = trace ?s1 @ Autofill_invoked # evs"
    using autofill_shape by blast
  have kk: "?k \<noteq> add_prefix b autofill_cachekey" using K by simp
  have d1: "distinct (map fst (rows ?s1))" using d by simp
  from autofill_cache_at [OF kk d1] a
  have "cache s2 ?k = cache s ?k \<or> (down s = None \<and> map_of (rows s) ?k \<noteq> None
          \<and> cache s2 ?k = map_of (rows s) ?k)"
    by simp
  with miss r have c2: "cache s2 ?k = None \<or> cache s2 ?k = Some PNone" by auto
  then have v: "fst (cache_get ?k s2) = PNone"
    by (auto simp add: cache_get_def)
  let ?s3 = "emit (Cache_get ?k) s2"
  have r3: "down ?s3 \<noteq> None \<or> map_of (rows ?s3) ?k = None \<or> map_of (rows ?s3) ?k = Some PNone"
    using r fr by simp
  have g: "get b K s = get_rest b ?k PNone ?s3"
    using get_miss [OF True miss a] v by simp
  from get_rest_absent [OF r3, of b] obtain evs' where
    "fst (get_rest b ?k PNone ?s3) = Inr PNone"
    "trace (snd (get_rest b ?k PNone ?s3)) = trace ?s3 @ Db_get ?k # evs'"
    by blast
  with g tr show ?thesis by (simp add: new_events_def)
qed


subsection \<open>Read after write\<close>

lemma set_value_Finished_state:
  assumes f: "set_value b K V s = (Inr Finished, s')"
    and d: "distinct (map fst (rows s))"
  shows "map_of (rows s') (add_prefix b K) = Some V \<and> distinct (map fst (rows s'))
     \<and> down s' = None \<and> (has_cache b \<longrightarrow> cache s' (add_prefix b K) = Some V)"
proof -
  have up: "down s = None" using f by (rule set_value_Finished_up)
  show ?thesis
  proof (cases "map_of (rows s) (add_prefix b K)")
    case None
    then have "add_prefix b K \<notin> fst ` set (rows s)"
      by (simp add: map_of_eq_None_iff)
    with f d up show ?thesis
      unfolding set_value_new [OF up None]
      by (auto simp add: set_finish_def cache_set_def image_iff)
  next
    case (Some v0)
    have m: "map_of (AList.update (add_prefix b K) V (rows s)) (add_prefix b K) = Some V"
      by (simp add: AList.update_conv')
    have dd: "distinct (map fst (AList.update (add_prefix b K) V (rows s)))"
      using d by (rule AList.distinct_update)
    from set_value_existing [OF up Some, of V] obtain evs s2 where
      e: "set_value b K V s = set_finish b (add_prefix b K) V v0 s2"
      and fr: "rows s2 = AList.update (add_prefix b K) V (rows s)" "down s2 = None"
      by blast
    from f e fr have "rows s' = AList.update (add_prefix b K) V (rows s)" "down s' = None"
      "has_cache b \<longrightarrow> cache s' (add_prefix b K) = Some V"
      by (auto simp add: set_finish_def cache_set_def)
    with m dd show ?thesis by simp
  qed
qed

text \<open>
  A warm-up leaves the cache entry of a key as it was or sets it to the value of the
  key's record, for every key of the registry and for every other key that does not have
  the sentinel's name.
\<close>

lemma autofill_cache_key:
  assumes k: "k \<in> set (CONFIG b) \<or> k \<noteq> autofill_cachekey"
    and d: "distinct (map fst (rows s))"
    and up: "down s = None"
    and r: "map_of (rows s) (add_prefix b k) = Some v"
  shows "cache (snd (autofill b s)) (add_prefix b k) = cache s (add_prefix b k) \<or>
         cache (snd (autofill b s)) (add_prefix b k) = Some v"
proof (cases "k \<noteq> autofill_cachekey")
  case True
  then have "add_prefix b k \<noteq> add_prefix b autofill_cachekey" by simp
  from autofill_cache_at [OF this d] r show ?thesis by auto
next
  case False
  with k have reg: "k \<in> set (CONFIG b)" by simp
  let ?sk = "add_prefix b autofill_cachekey"
  show ?thesis
  proof (cases "timeout_unset (autofill_timeout b) \<or> \<not> has_cache b")
    case True
    then show ?thesis by (simp add: autofill_off)
  next
    case off: False
    show ?thesis
    proof (cases "truthy (case cache s ?sk of None \<Rightarrow> PNone | Some v \<Rightarrow> v)")
      case True
      then obtain w where "cache s ?sk = Some w" "truthy w"
        by (auto split: option.splits)
      with off show ?thesis by (simp add: autofill_warm)
    next
      case cold: False
      let ?scanned = "filter (\<lambda>r. fst r \<in> add_prefix b ` set (CONFIG b)) (rows s)"
      from off cold have c: "cache (snd (autofill b s)) =
           (cache s)(?sk \<mapsto> PInt 1) ++ map_of (rev ?scanned)"
        using autofill_cold_cache [of b s] up by simp
      from r have "(add_prefix b k, v) \<in> set (rows s)" by (rule map_of_SomeD)
      with reg have "(add_prefix b k, v) \<in> set (rev ?scanned)" by simp
      moreover have "distinct (map fst (rev ?scanned))"
        using d by (simp add: distinct_map_filter rev_map [symmetric])
      ultimately have "map_of (rev ?scanned) (add_prefix b k) = Some v" by simp
      with c show ?thesis by (simp add: map_add_def)
    qed
  qed
qed

lemma get_written_none:
  assumes k: "K \<in> set (CONFIG b) \<or> K \<noteq> autofill_cachekey"
    and d: "distinct (map fst (rows s))"
    and up: "down s = None"
    and r: "map_of (rows s) (add_prefix b K) = Some PNone"
    and c: "has_cache b \<longrightarrow> cache s (add_prefix b K) = Some PNone"
  shows "fst (get b K s) = Inr PNone"
proof (cases "has_cache b")
  case False
  from r have "down s \<noteq> None \<or> map_of (rows s) (add_prefix b K) = None
      \<or> map_of (rows s) (add_prefix b K) = Some PNone" by simp
  from get_rest_absent(1) [OF this, of b] False show ?thesis
    by (simp add: get_nocache)
next
  case True
  let ?k = "add_prefix b K"
  let ?s1 = "emit (Cache_get ?k) s"
  from True c have miss: "cache s ?k = None \<or> cache s ?k = Some PNone" by simp
  obtain evs s2 where a: "autofill b ?s1 = (Inr (), s2)"
    and fr: "rows s2 = rows ?s1" "down s2 = down ?s1"
    using autofill_shape by blast
  have "cache (snd (autofill b ?s1)) ?k = cache ?s1 ?k \<or> cache (snd (autofill b ?s1)) ?k = Some PNone"
    by (rule autofill_cache_key) (use k d up r in simp_all)
  with a True c have "cache s2 ?k = Some PNone" by auto
  then have v: "fst (cache_get ?k s2) = PNone"
    by (simp add: cache_get_def)
  let ?s3 = "emit (Cache_get ?k) s2"
  have r3: "down ?s3 \<noteq> None \<or> map_of (rows ?s3) ?k = None \<or> map_of (rows ?s3) ?k = Some PNone"
    using r fr by simp
  have "get b K s = get_rest b ?k PNone ?s3"
    using get_miss [OF True miss a] v by simp
  with get_rest_absent(1) [OF r3, of b] show ?thesis by simp
qed

text \<open>
  C1. Read-after-write: for every key of the registry and every value, after
  \<^verbatim>\<open>set(K, V)\<close> has run to its end on a store that keeps one record per key,
  \<^verbatim>\<open>get(K)\<close> returns \<open>V\<close>. With a cache, \<^verbatim>\<open>set\<close> has overwritten
  the cache entry of the prefixed key with \<open>V\<close>; a \<open>V\<close> that is
  \<^verbatim>\<open>None\<close> reads as a miss and is found again in the store.
\<close>

theorem read_after_write_registry:
  assumes f: "set_value b K V s = (Inr Finished, s')"
    and d: "distinct (map fst (rows s))"
    and K: "K \<in> set (CONFIG b)"
  shows "fst (get b K s') = Inr V
     \<and> (has_cache b \<longrightarrow> cache s' (add_prefix b K) = Some V)"
proof -
  from set_value_Finished_state [OF f d] have
    r: "map_of (rows s') (add_prefix b K) = Some V" and d': "distinct (map fst (rows s'))"
    and up: "down s' = None" and c: "has_cache b \<longrightarrow> cache s' (add_prefix b K) = Some V"
    by simp_all
  have "fst (get b K s') = Inr V"
  proof (cases "V = PNone")
    case True
    have "fst (get b K s') = Inr PNone"
      by (rule get_written_none) (use K d' up r c True in simp_all)
    with True show ?thesis by simp
  next
    case False
    show ?thesis
    proof (cases "has_cache b")
      case True
      with c False show ?thesis by (simp add: get_hit)
    next
      case nc: False
      with r up show ?thesis
        by (simp add: get_nocache get_rest_def db_get_def)
    qed
  qed
  with c show ?thesis by simp
qed

theorem read_after_write_registry_witness:
  "set_value clash_backend ''autofilled'' PNone clash_state
     = (Inr Finished, snd (set_value clash_backend ''autofilled'' PNone clash_state)) \<and>
   distinct (map fst (rows clash_state)) \<and>
   ''autofilled'' \<in> set (CONFIG clash_backend) \<and>
   fst (get clash_backend ''autofilled''
          (snd (set_value clash_backend ''autofilled'' PNone clash_state))) = Inr PNone \<and>
   fst (get example_backend ''B''
          (snd (set_value example_backend ''B'' (PInt 7) example_state))) = Inr (PInt 7)"
  using read_after_write_registry [of clash_backend "''autofilled''" PNone clash_state
          "snd (set_value clash_backend ''autofilled'' PNone clash_state)"]
    read_after_write_registry [of example_backend "''B''" "PInt 7" example_state
          "snd (set_value example_backend ''B'' (PInt 7) example_state)"]
  by (simp add: model_defs mget.simps autofill.simps)

text \<open>
  A key outside the registry is read back as well, unless it has the sentinel's name.
\<close>

lemma read_after_write:
  assumes f: "set_value b K V s = (Inr Finished, s')"
    and d: "distinct (map fst (rows s))"
    and K: "K \<noteq> autofill_cachekey"
  shows "fst (get b K s') = Inr V"
proof -
  from set_value_Finished_state [OF f d] have
    r: "map_of (rows s') (add_prefix b K) = Some V" and d': "distinct (map fst (rows s'))"
    and up: "down s' = None" and c: "has_cache b \<longrightarrow> cache s' (add_prefix b K) = Some V"
    by simp_all
  show ?thesis
  proof (cases "V = PNone")
    case True
    have "fst (get b K s') = Inr PNone"
      by (rule get_written_none) (use K d' up r c True in simp_all)
    with True show ?thesis by simp
  next
    case False
    show ?thesis
    proof (cases "has_cache b")
      case True
      with c False show ?thesis by (simp add: get_hit)
    next
      case nc: False
      with r up show ?thesis
        by (simp add: get_nocache get_rest_def db_get_def)
    qed
  qed
qed

text \<open>
  C4. Autofill idempotence says that once \<^verbatim>\<open>autofill\<close> has run, a second
  call scans nothing and writes nothing, so that two calls in a row scan the store once.
  \<open>autofill_warm_noop\<close> proves the second call idle on a truthy sentinel, and
  \<open>autofill_twice_scans_once\<close> proves the two-call property whenever the first
  scan returns no record under the sentinel's own cache key. With
  \<^verbatim>\<open>autofilled\<close> in the registry and \<open>0\<close> stored under it, the first
  call leaves \<open>0\<close> under the sentinel key, and the second call scans the store
  again and writes the cache again: two scans in two calls.
\<close>

theorem autofill_twice_scans_twice:
  "has_cache clash_backend \<and> \<not> timeout_unset (autofill_timeout clash_backend) \<and>
   count_events is_store_scan
     (new_events clash_state (snd (autofill clash_backend clash_state))) = 1 \<and>
   count_events is_store_scan
     (new_events clash_state
        (snd (autofill clash_backend (snd (autofill clash_backend clash_state))))) = 2 \<and>
   count_events is_cache_write
     (new_events (snd (autofill clash_backend clash_state))
        (snd (autofill clash_backend (snd (autofill clash_backend clash_state))))) = 1"
  by (simp add: model_defs mget.simps autofill.simps)

text \<open>
  C9. The claim says that \<^verbatim>\<open>autofill\<close>, with a cache, a window and no
  sentinel, always writes the sentinel entry, so that no further warm-up is attempted;
  \<open>autofill_writes_sentinel\<close> and \<open>autofill_failed_scan\<close> prove it whenever
  the scan returns no record under the sentinel's own cache key, which covers a failed
  and an empty scan. With \<^verbatim>\<open>autofilled\<close> in the registry and \<open>0\<close>
  stored under it, the loop of lines 64--65 replaces the sentinel by \<open>0\<close>, and
  the next \<^verbatim>\<open>autofill\<close> scans the store again.
\<close>

theorem sentinel_overwritten_by_config_value:
  "has_cache clash_backend \<and> \<not> timeout_unset (autofill_timeout clash_backend) \<and>
   cache clash_state (add_prefix clash_backend autofill_cachekey) = None \<and>
   cache (snd (autofill clash_backend clash_state)) (add_prefix clash_backend autofill_cachekey)
     = Some (PInt 0) \<and>
   count_events is_store_scan
     (new_events (snd (autofill clash_backend clash_state))
        (snd (autofill clash_backend (snd (autofill clash_backend clash_state))))) = 1"
  by (simp add: model_defs mget.simps autofill.simps)

text \<open>
  C10. The claim says that \<^verbatim>\<open>get\<close> returns the absent-marker for a key
  without durable record or with a stored \<^verbatim>\<open>None\<close>, after a call of
  \<^verbatim>\<open>autofill\<close> and a lookup in the store; \<open>get_absent_marker\<close> proves
  it for every key but \<^verbatim>\<open>autofilled\<close>. For that key, without a record
  and with an empty cache, \<^verbatim>\<open>get\<close> returns the sentinel \<open>1\<close> that
  its own call of \<^verbatim>\<open>autofill\<close> has just written, and does not look the key
  up in the store.
\<close>

theorem get_sentinel_name_served_from_cache:
  "map_of (rows cold_state) (add_prefix clash_backend ''autofilled'') = None \<and>
   cache cold_state (add_prefix clash_backend ''autofilled'') = None \<and>
   fst (get clash_backend ''autofilled'' cold_state) = Inr (PInt 1) \<and>
   count_events (\<lambda>e. e = Db_get ''autofilled'')
     (new_events cold_state (snd (get clash_backend ''autofilled'' cold_state))) = 0"
  by (simp add: model_defs mget.simps autofill.simps)

section \<open>Partial misses of the batched read\<close>

lemma mget_cached_exact2:
  assumes "has_cache b" "keys \<noteq> []"
  shows "\<exists>sc. mget b keys True s =
        mget_rest (prefixed_keys b keys)
          (fst (cache_get_many (map fst (prefixed_keys b keys)) sc))
          (emit (Cache_get_many (map fst (prefixed_keys b keys))) sc)
      \<and> rows sc = rows s \<and> down sc = down s
      \<and> (cache sc = cache s \<or>
          cache sc = cache (snd (autofill b (emit (Cache_get_many (map fst (prefixed_keys b keys))) s))))"
proof (cases "length (fst (cache_get_many (map fst (prefixed_keys b keys)) s))
           = length (prefixed_keys b keys)")
  case True
  from mget_hit [OF assms True] show ?thesis by blast
next
  case False
  obtain evs s2 where a: "autofill b (emit (Cache_get_many (map fst (prefixed_keys b keys))) s)
        = (Inr (), s2)"
    and fr2: "rows s2 = rows (emit (Cache_get_many (map fst (prefixed_keys b keys))) s)"
       "down s2 = down (emit (Cache_get_many (map fst (prefixed_keys b keys))) s)"
    using autofill_shape by blast
  from mget_miss [OF assms False a] fr2 a show ?thesis by auto
qed

lemma mget_resolved2:
  assumes up: "down s = None"
    and ne: "keys \<noteq> []"
  shows "\<exists>vals s'. mget b keys True s =
        (Inr (map (\<lambda>(x, v). (the (map_of (prefixed_keys b keys) x), v)) vals @
              map (\<lambda>(x, v). (the (map_of (prefixed_keys b keys) x), v))
               (filter (\<lambda>r. fst r \<in> add_prefix b ` set keys \<and> fst r \<notin> fst ` set vals) (rows s))),
         s')
      \<and> set vals = {(x, v). has_cache b \<and> x \<in> add_prefix b ` set keys \<and> cache s' x = Some v}
      \<and> (cache s' = cache s \<or>
          cache s' = cache (snd (autofill b (emit (Cache_get_many (map fst (prefixed_keys b keys))) s))))"
proof (cases "has_cache b")
  case False
  let ?vals = "[] :: (string \<times> pyval) list"
  let ?s' = "emit (Db_filter (map fst (prefixed_keys b keys))) s"
  from False ne up have e: "mget b keys True s =
     (Inr (map (\<lambda>(x, v). (the (map_of (prefixed_keys b keys) x), v)) ?vals @
              map (\<lambda>(x, v). (the (map_of (prefixed_keys b keys) x), v))
               (filter (\<lambda>r. fst r \<in> add_prefix b ` set keys \<and> fst r \<notin> fst ` set ?vals) (rows s))),
      ?s')"
    by (simp add: mget_uncached mget_stored_up prefixed_keys_dom)
  have v: "set ?vals = {(x, v). has_cache b \<and> x \<in> add_prefix b ` set keys
      \<and> cache ?s' x = Some v}"
    using False by simp
  have c: "cache ?s' = cache s \<or>
          cache ?s' = cache (snd (autofill b (emit (Cache_get_many (map fst (prefixed_keys b keys))) s)))"
    by simp
  show ?thesis
    by (rule exI [of _ ?vals], rule exI [of _ ?s'], intro conjI, rule e, rule v, rule c)
next
  case True
  let ?keys = "prefixed_keys b keys"
  let ?ks = "map fst ?keys"
  from mget_cached_exact2 [OF True ne, of s] obtain sc where
    m: "mget b keys True s = mget_rest ?keys (fst (cache_get_many ?ks sc)) (emit (Cache_get_many ?ks) sc)"
    and fr: "rows sc = rows s" "down sc = down s"
    and cc: "cache sc = cache s \<or>
          cache sc = cache (snd (autofill b (emit (Cache_get_many ?ks) s)))"
    by blast
  let ?vals = "fst (cache_get_many ?ks sc)"
  have sub: "fst ` set ?vals \<subseteq> fst ` set ?keys"
    using cache_get_many_fields(2) [of ?ks sc] by simp
  have d: "down (emit (Cache_get_many ?ks) sc) = None"
    using fr up by simp
  from mget_rest_up [OF sub d] obtain s' where
    r: "mget_rest ?keys ?vals (emit (Cache_get_many ?ks) sc) =
      (Inr (map (\<lambda>(k, v). (the (map_of ?keys k), v)) ?vals @
            map (\<lambda>(k, v). (the (map_of ?keys k), v))
              (filter (\<lambda>r. fst r \<in> fst ` set ?keys \<and> fst r \<notin> fst ` set ?vals)
                 (rows (emit (Cache_get_many ?ks) sc)))), s')"
    and c: "cache s' = cache (emit (Cache_get_many ?ks) sc)"
    by blast
  have v: "set ?vals = {(x, v). has_cache b \<and> x \<in> add_prefix b ` set keys \<and> cache s' x = Some v}"
    using True c by (simp add: cache_get_many_hits prefixed_keys_dom)
  from m r fr have e: "mget b keys True s =
        (Inr (map (\<lambda>(x, v). (the (map_of ?keys x), v)) ?vals @
              map (\<lambda>(x, v). (the (map_of ?keys x), v))
               (filter (\<lambda>r. fst r \<in> add_prefix b ` set keys \<and> fst r \<notin> fst ` set ?vals) (rows s))),
         s')"
    by (simp add: prefixed_keys_dom)
  have c': "cache s' = cache s \<or>
          cache s' = cache (snd (autofill b (emit (Cache_get_many ?ks) s)))"
    using cc c by simp
  show ?thesis
    by (rule exI [of _ ?vals], rule exI [of _ s'], intro conjI, rule e, rule v, rule c')
qed

text \<open>
  C3. Partial-miss completeness of \<^verbatim>\<open>mget\<close>: when the durable store is
  available, keeps one record per key and holds a record for every requested key,
  \<^verbatim>\<open>mget\<close> with \<^verbatim>\<open>fallback=True\<close> yields a pair for every requested
  key and for no other key. A key that the cache holds when \<^verbatim>\<open>mget\<close> has
  run is yielded with its cached value, every other key with the value of its durable
  record. A key of the registry that the cache did not hold when \<^verbatim>\<open>mget\<close>
  was called is yielded with the value of its durable record and with no other value,
  whether the retry found it in the re-warmed cache or the store was asked; so is every
  such key outside the registry that does not have the sentinel's name.
\<close>

theorem mget_partial_miss_complete:
  assumes up: "down s = None"
    and stored: "\<forall>k \<in> set keys. add_prefix b k \<in> fst ` set (rows s)"
    and d: "distinct (map fst (rows s))"
  shows "\<exists>out s'. mget b keys True s = (Inr out, s')
      \<and> fst ` set out = set keys
      \<and> (\<forall>k \<in> set keys. \<forall>v. has_cache b \<and> cache s' (add_prefix b k) = Some v
             \<longrightarrow> (k, v) \<in> set out)
      \<and> (\<forall>k \<in> set keys. \<forall>v. (has_cache b \<longrightarrow> cache s' (add_prefix b k) = None)
             \<and> map_of (rows s) (add_prefix b k) = Some v \<longrightarrow> (k, v) \<in> set out)
      \<and> (\<forall>k \<in> set keys.
             (k \<in> set (CONFIG b) \<or> k \<noteq> autofill_cachekey)
             \<and> (has_cache b \<longrightarrow> cache s (add_prefix b k) = None)
             \<longrightarrow> (\<forall>v. (k, v) \<in> set out \<longleftrightarrow> map_of (rows s) (add_prefix b k) = Some v))"
proof (cases "keys = []")
  case True
  then show ?thesis by (simp add: mget_empty)
next
  case False
  let ?raw = "\<lambda>(x, v). (the (map_of (prefixed_keys b keys) x), v)"
  from mget_resolved2 [OF up False, of b] obtain vals s' where
    m: "mget b keys True s =
        (Inr (map ?raw vals @
              map ?raw (filter (\<lambda>r. fst r \<in> add_prefix b ` set keys \<and> fst r \<notin> fst ` set vals)
                          (rows s))), s')"
    and v: "set vals = {(x, v). has_cache b \<and> x \<in> add_prefix b ` set keys \<and> cache s' x = Some v}"
    and cc: "cache s' = cache s \<or>
          cache s' = cache (snd (autofill b (emit (Cache_get_many (map fst (prefixed_keys b keys))) s)))"
    by blast
  let ?pending = "filter (\<lambda>r. fst r \<in> add_prefix b ` set keys \<and> fst r \<notin> fst ` set vals) (rows s)"
  let ?out = "map ?raw vals @ map ?raw ?pending"
  have raw: "\<And>k v. k \<in> set keys \<Longrightarrow> ?raw (add_prefix b k, v) = (k, v)"
    by (simp add: prefixed_keys_raw)
  have hit: "\<And>k v. k \<in> set keys \<Longrightarrow> has_cache b \<Longrightarrow> cache s' (add_prefix b k) = Some v
      \<Longrightarrow> (k, v) \<in> set ?out"
  proof -
    fix k v assume k: "k \<in> set keys" and "has_cache b" "cache s' (add_prefix b k) = Some v"
    with v have "(add_prefix b k, v) \<in> set vals" by simp
    then have "?raw (add_prefix b k, v) \<in> ?raw ` set vals" by (rule imageI)
    with raw [OF k] show "(k, v) \<in> set ?out" by simp
  qed
  have miss: "\<And>k v. k \<in> set keys \<Longrightarrow> (has_cache b \<longrightarrow> cache s' (add_prefix b k) = None)
      \<Longrightarrow> map_of (rows s) (add_prefix b k) = Some v \<Longrightarrow> (k, v) \<in> set ?out"
  proof -
    fix k v assume k: "k \<in> set keys"
      and c: "has_cache b \<longrightarrow> cache s' (add_prefix b k) = None"
      and r: "map_of (rows s) (add_prefix b k) = Some v"
    from c v have "add_prefix b k \<notin> fst ` set vals" by auto
    moreover from r have "(add_prefix b k, v) \<in> set (rows s)" by (rule map_of_SomeD)
    ultimately have "(add_prefix b k, v) \<in> set ?pending" using k by simp
    then have "?raw (add_prefix b k, v) \<in> ?raw ` set ?pending" by (rule imageI)
    with raw [OF k] show "(k, v) \<in> set ?out" by simp
  qed
  have one: "\<And>p. p \<in> set vals \<union> set ?pending \<Longrightarrow> fst (?raw p) \<in> set keys"
  proof -
    fix p assume p: "p \<in> set vals \<union> set ?pending"
    obtain x w where xw: "p = (x, w)" by (cases p)
    from p v have "x \<in> add_prefix b ` set keys" unfolding xw by auto
    then obtain k' where "k' \<in> set keys" "x = add_prefix b k'" by blast
    with raw show "fst (?raw p) \<in> set keys" unfolding xw by simp
  qed
  have sub: "fst ` set ?out \<subseteq> set keys"
  proof
    fix k assume "k \<in> fst ` set ?out"
    then obtain p where "p \<in> set vals \<union> set ?pending" "k = fst (?raw p)"
      by (auto simp add: image_iff)
    with one show "k \<in> set keys" by blast
  qed
  have sup: "set keys \<subseteq> fst ` set ?out"
  proof
    fix k assume k: "k \<in> set keys"
    show "k \<in> fst ` set ?out"
    proof (cases "has_cache b \<and> cache s' (add_prefix b k) \<noteq> None")
      case True
      then obtain w where "cache s' (add_prefix b k) = Some w" by blast
      with True k have "(k, w) \<in> set ?out" by (intro hit) simp_all
      then show ?thesis by (rule image_eqI [rotated]) simp
    next
      case False
      from stored k obtain w where "map_of (rows s) (add_prefix b k) = Some w"
        by (metis domD dom_map_of_conv_image_fst)
      with False k have "(k, w) \<in> set ?out" by (intro miss) auto
      then show ?thesis by (rule image_eqI [rotated]) simp
    qed
  qed
  from sub sup have eq: "fst ` set ?out = set keys" by (rule equalityI)
  have durable: "\<And>k v. k \<in> set keys \<Longrightarrow> k \<in> set (CONFIG b) \<or> k \<noteq> autofill_cachekey \<Longrightarrow>
      has_cache b \<longrightarrow> cache s (add_prefix b k) = None \<Longrightarrow>
      (k, v) \<in> set ?out \<longleftrightarrow> map_of (rows s) (add_prefix b k) = Some v"
  proof -
    fix k v assume k: "k \<in> set keys" and reg: "k \<in> set (CONFIG b) \<or> k \<noteq> autofill_cachekey"
      and c0: "has_cache b \<longrightarrow> cache s (add_prefix b k) = None"
    let ?pk = "add_prefix b k"
    let ?s1 = "emit (Cache_get_many (map fst (prefixed_keys b keys))) s"
    from stored k obtain v0 where v0: "map_of (rows s) ?pk = Some v0"
      by (metis domD dom_map_of_conv_image_fst)
    have "cache (snd (autofill b ?s1)) ?pk = cache ?s1 ?pk \<or> cache (snd (autofill b ?s1)) ?pk = Some v0"
      by (rule autofill_cache_key) (use reg d up v0 in simp_all)
    with cc c0 have after: "has_cache b \<longrightarrow> cache s' ?pk = None \<or> cache s' ?pk = Some v0"
      by auto
    show "(k, v) \<in> set ?out \<longleftrightarrow> map_of (rows s) ?pk = Some v"
    proof
      assume "map_of (rows s) ?pk = Some v"
      with v0 have vv: "v = v0" by simp
      show "(k, v) \<in> set ?out"
      proof (cases "has_cache b \<and> cache s' ?pk = Some v0")
        case True
        with k show ?thesis unfolding vv by (intro hit) simp_all
      next
        case False
        with after have "has_cache b \<longrightarrow> cache s' ?pk = None" by auto
        with k v0 show ?thesis unfolding vv by (intro miss) simp_all
      qed
    next
      assume "(k, v) \<in> set ?out"
      then have "(k, v) \<in> ?raw ` (set vals \<union> set ?pending)"
        by (simp add: image_Un)
      then obtain p where p: "p \<in> set vals \<union> set ?pending" and kp: "(k, v) = ?raw p"
        by (rule imageE)
      obtain x w where xw: "p = (x, w)" by (cases p)
      from p v have "x \<in> add_prefix b ` set keys" unfolding xw by auto
      then obtain k' where k': "k' \<in> set keys" "x = add_prefix b k'" by blast
      with kp raw have "k = k'" "v = w" unfolding xw by simp_all
      with k' xw p have "(?pk, v) \<in> set vals \<or> (?pk, v) \<in> set ?pending" by simp
      then show "map_of (rows s) ?pk = Some v"
      proof
        assume "(?pk, v) \<in> set vals"
        with v have "has_cache b" "cache s' ?pk = Some v" by simp_all
        with after v0 show ?thesis by auto
      next
        assume "(?pk, v) \<in> set ?pending"
        then have "(?pk, v) \<in> set (rows s)" by simp
        with d show ?thesis by simp
      qed
    qed
  qed
  show ?thesis
    apply (rule exI [of _ ?out], rule exI [of _ s'])
    apply (intro conjI ballI allI impI)
    apply (rule m)
    apply (rule eq)
    apply (rule hit; simp)
    apply (rule miss; simp)
    apply (rule durable; simp)
    done
qed

theorem mget_partial_miss_complete_witness:
  "down example_state = None \<and>
   add_prefix example_backend ''A'' \<in> fst ` set (rows example_state) \<and>
   add_prefix example_backend ''B'' \<in> fst ` set (rows example_state) \<and>
   distinct (map fst (rows example_state)) \<and>
   ''B'' \<in> set (CONFIG example_backend) \<and>
   cache example_state (add_prefix example_backend ''B'') = None \<and>
   map_of (rows example_state) (add_prefix example_backend ''B'') = Some (PInt 2) \<and>
   fst (mget example_backend [''A'', ''B''] True example_state)
     = Inr [(''A'', PInt 1), (''B'', PInt 2)] \<and>
   fst ` set [(''A'', PInt 1), (''B'', PInt (2::int))] = set [''A'', ''B'']"
  using mget_partial_miss_complete [of example_state "[''A'', ''B'']" example_backend]
  by (simp add: model_defs mget.simps autofill.simps)

section \<open>Two writers racing to create a key\<close>

text \<open>
  Run alone, the stepwise \<^verbatim>\<open>set\<close> is \<open>set_value\<close>.
\<close>

lemma set_step_alone:
  "interleave b K V V' (replicate 10 True) (At_get, p2, s)
     = (Exited (fst (set_value b K V s)), p2, snd (set_value b K V s))"
proof (cases "down s")
  case (Some f)
  then show ?thesis
    by (simp add: numeral_eq_Suc set_unavailable db_get_def)
next
  case None
  show ?thesis
  proof (cases "map_of (rows s) (add_prefix b K)")
    case absent: None
    then have "add_prefix b K \<notin> fst ` set (rows s)"
      by (simp add: map_of_eq_None_iff)
    with None absent show ?thesis
      by (simp add: numeral_eq_Suc set_value_new db_get_def db_create_def set_finish_def
            post_save_created)
  next
    case (Some v0)
    let ?k = "add_prefix b K"
    let ?s1 = "emit (Db_save ?k V) ((emit (Db_get ?k) s)\<lparr>rows := AList.update ?k V (rows s)\<rparr>)"
    have sv: "set_value b K V s =
        (case clear b False ?s1 of
           (Inl e, s2) \<Rightarrow> (Inl e, s2)
         | (Inr u, s2) \<Rightarrow> set_finish b ?k V v0 s2)"
      using None Some
      by (simp add: set_value_def set_update_def db_get_def db_save_def Let_def post_save_def)
    have st: "interleave b K V V' (replicate 10 True) (At_get, p2, s)
        = interleave b K V V' (replicate 8 True) (At_clear v0, p2, ?s1)"
      using None Some by (simp add: numeral_eq_Suc db_get_def db_save_def)
    show ?thesis
    proof (cases "has_cache b")
      case False
      then show ?thesis
        unfolding sv st by (simp add: numeral_eq_Suc clear_def set_finish_def)
    next
      case True
      let ?s2 = "cache_delete_many
                   (map (add_prefix b) (CONFIG b) @ [add_prefix b autofill_cachekey]) ?s1"
      have cl: "clear b False ?s1 = autofill b ?s2"
        using True by (simp add: clear_def)
      have st2: "interleave b K V V' (replicate 8 True) (At_clear v0, p2, ?s1)
          = interleave b K V V' (replicate 7 True) (At_autofill v0, p2, ?s2)"
        using True by (simp add: numeral_eq_Suc)
      show ?thesis
      proof (cases "timeout_unset (autofill_timeout b)")
        case off: True
        then show ?thesis
          unfolding sv st st2 cl using True
          by (simp add: numeral_eq_Suc autofill_off set_finish_def)
      next
        case on: False
        let ?sk = "add_prefix b autofill_cachekey"
        let ?s3 = "emit (Cache_get ?sk) (emit Autofill_invoked ?s2)"
        have gone: "cache ?s2 ?sk = None"
          by (simp add: cache_delete_many_def)
        then have cold: "\<not> truthy (case cache ?s2 ?sk of None \<Rightarrow> PNone | Some v \<Rightarrow> v)"
          by simp
        obtain pairs s4 where mg: "mget b (CONFIG b) False ?s3 = (Inr pairs, s4)"
          using mget_nofallback_cases by blast
        have af: "autofill b ?s2 =
            (Inr (), cache_set_many
               (fold (\<lambda>(key, value) d. AList.update (add_prefix b key) value d) pairs
                  [(?sk, PInt 1)]) (autofill_timeout b) s4)"
          using on True cold mg by (rule autofill_cold)
        have st3: "interleave b K V V' (replicate 7 True) (At_autofill v0, p2, ?s2)
            = interleave b K V V' (replicate 6 True) (At_scan v0, p2, ?s3)"
          using on True gone by (simp add: numeral_eq_Suc cache_get_def)
        have st4: "interleave b K V V' (replicate 6 True) (At_scan v0, p2, ?s3)
            = interleave b K V V' (replicate 5 True) (At_fill v0 pairs, p2, s4)"
          using mg by (simp add: numeral_eq_Suc)
        show ?thesis
          unfolding sv st st2 st3 st4 cl af using True
          by (simp add: numeral_eq_Suc set_finish_def)
      qed
    qed
  qed
qed

text \<open>
  The invariant of a race on a key without record: the store stays available and keeps
  one record per key; as long as the key has no record both writers are before their
  create; once it has one, its value is \<open>V1\<close> or \<open>V2\<close>; no writer has exited
  with an exception.
\<close>

lemma db_get_up:
  "down s = None \<Longrightarrow>
   db_get k s = ((case map_of (rows s) k of None \<Rightarrow> Inl DoesNotExist | Some v \<Rightarrow> Inr v),
                 emit (Db_get k) s)"
  by (simp add: db_get_def)

lemma set_step_inv_first:
  assumes inv: "race_inv (add_prefix b K) V1 V2 (p1, p2, s)"
    and step: "set_step b K V1 p1 s = (p1', s')"
  shows "race_inv (add_prefix b K) V1 V2 (p1', p2, s')"
proof -
  let ?k = "add_prefix b K"
  from inv have up: "down s = None" and d: "distinct (map fst (rows s))"
    and e1: "exited_ok p1" and e2: "exited_ok p2"
    by (simp_all add: race_inv_def)
  show ?thesis
  proof (cases "map_of (rows s) ?k")
    case None
    with inv have ns: "\<not> settled p1" "\<not> settled p2" by (simp_all add: race_inv_def)
    from None have nk: "?k \<notin> fst ` set (rows s)" by (simp add: map_of_eq_None_iff)
    from ns(1) e1 have "p1 = At_get \<or> p1 = At_create" by (cases p1) simp_all
    then show ?thesis
    proof
      assume "p1 = At_get"
      with step up None d e2 ns show ?thesis
        by (auto simp add: db_get_up race_inv_def)
    next
      assume "p1 = At_create"
      with step up None d e2 nk show ?thesis
        by (auto simp add: db_create_def race_inv_def map_add_def post_save_created)
    qed
  next
    case (Some v)
    with inv have v: "v = V1 \<or> v = V2" by (simp add: race_inv_def)
    have upd: "map_of (AList.update ?k V1 (rows s)) ?k = Some V1"
      by (simp add: AList.update_conv')
    have dd: "distinct (map fst (AList.update ?k V1 (rows s)))"
      using d by (rule AList.distinct_update)
    from Some have ik: "?k \<in> fst ` set (rows s)"
      by (metis domI dom_map_of_conv_image_fst)
    show ?thesis
    proof (cases p1)
      case At_get
      with step up Some d e2 v show ?thesis
        by (auto simp add: db_get_up race_inv_def)
    next
      case At_create
      with step up Some d e2 v ik show ?thesis
        by (auto simp add: db_create_def race_inv_def)
    next
      case At_refetch
      with step up Some d e2 v show ?thesis
        by (auto simp add: db_get_up race_inv_def)
    next
      case (At_save old)
      with step up e2 have "p1' = At_clear old" "rows s' = AList.update ?k V1 (rows s)"
        "down s' = None"
        by (auto simp add: db_save_def)
      with upd dd e2 show ?thesis by (simp add: race_inv_def)
    next
      case (At_clear old)
      with step up Some d e2 v show ?thesis
        by (auto simp add: race_inv_def cache_delete_many_def split: if_splits)
    next
      case (At_autofill old)
      with step up Some d e2 v show ?thesis
        by (auto simp add: race_inv_def cache_get_def Let_def split: if_splits)
    next
      case (At_scan old)
      obtain pairs s2 where "mget b (CONFIG b) False s = (Inr pairs, s2)"
        "rows s2 = rows s" "down s2 = down s"
        using mget_nofallback_cases by blast
      with At_scan step up Some d e2 v show ?thesis
        by (auto simp add: race_inv_def)
    next
      case (At_fill old pairs)
      with step up Some d e2 v show ?thesis
        by (auto simp add: race_inv_def cache_set_many_def)
    next
      case (At_cache old)
      with step up Some d e2 v show ?thesis
        by (auto simp add: race_inv_def cache_set_def)
    next
      case (At_signal old)
      with step up Some d e2 v show ?thesis
        by (auto simp add: race_inv_def)
    next
      case (Exited r)
      with step inv show ?thesis by simp
    qed
  qed
qed

lemma race_inv_swap:
  "race_inv k V1 V2 (p1, p2, s) = race_inv k V2 V1 (p2, p1, s)"
  by (auto simp add: race_inv_def split: option.splits)

lemma set_step_inv_second:
  assumes inv: "race_inv (add_prefix b K) V1 V2 (p1, p2, s)"
    and step: "set_step b K V2 p2 s = (p2', s')"
  shows "race_inv (add_prefix b K) V1 V2 (p1, p2', s')"
  using set_step_inv_first [of b K V2 V1 p2 p1 s p2' s'] inv step
  by (simp add: race_inv_swap [of _ V1 V2])

lemma interleave_inv:
  "race_inv (add_prefix b K) V1 V2 c \<Longrightarrow>
   race_inv (add_prefix b K) V1 V2 (interleave b K V1 V2 sched c)"
proof (induction sched arbitrary: c)
  case Nil
  then show ?case by simp
next
  case (Cons first sched)
  obtain p1 p2 s where c: "c = (p1, p2, s)" by (cases c)
  show ?case
  proof (cases first)
    case True
    obtain p1' s' where st: "set_step b K V1 p1 s = (p1', s')" by (cases "set_step b K V1 p1 s")
    from Cons.prems c st have "race_inv (add_prefix b K) V1 V2 (p1', p2, s')"
      by (auto intro: set_step_inv_first)
    then have "race_inv (add_prefix b K) V1 V2 (interleave b K V1 V2 sched (p1', p2, s'))"
      by (rule Cons.IH)
    with True c st show ?thesis by simp
  next
    case False
    obtain p2' s' where st: "set_step b K V2 p2 s = (p2', s')" by (cases "set_step b K V2 p2 s")
    from Cons.prems c st have "race_inv (add_prefix b K) V1 V2 (p1, p2', s')"
      by (auto intro: set_step_inv_second)
    then have "race_inv (add_prefix b K) V1 V2 (interleave b K V1 V2 sched (p1, p2', s'))"
      by (rule Cons.IH)
    with False c st show ?thesis by simp
  qed
qed

lemma set_step_progress:
  "steps_left (fst (set_step b K V p s)) \<le> steps_left p - 1"
proof (cases p)
  case (At_scan old)
  obtain pairs s2 where "mget b (CONFIG b) False s = (Inr pairs, s2)"
    using mget_nofallback_cases by blast
  with At_scan show ?thesis by simp
qed (auto simp add: db_get_def db_create_def db_save_def post_save_created cache_get_def Let_def
       split: option.splits if_splits)

lemma interleave_progress:
  "interleave b K V1 V2 sched (p1, p2, s) = (q1, q2, s') \<Longrightarrow>
   steps_left q1 \<le> steps_left p1 - count_list sched True \<and>
   steps_left q2 \<le> steps_left p2 - count_list sched False"
proof (induction sched arbitrary: p1 p2 s)
  case Nil
  then show ?case by simp
next
  case (Cons first sched)
  show ?case
  proof (cases first)
    case True
    obtain p1' s1 where st: "set_step b K V1 p1 s = (p1', s1)" by (cases "set_step b K V1 p1 s")
    with Cons.prems True have "interleave b K V1 V2 sched (p1', p2, s1) = (q1, q2, s')"
      by simp
    from Cons.IH [OF this] have
      "steps_left q1 \<le> steps_left p1' - count_list sched True"
      "steps_left q2 \<le> steps_left p2 - count_list sched False"
      by simp_all
    moreover have "steps_left p1' \<le> steps_left p1 - 1"
      using set_step_progress [of b K V1 p1 s] st by simp
    ultimately show ?thesis using True by simp
  next
    case False
    obtain p2' s1 where st: "set_step b K V2 p2 s = (p2', s1)" by (cases "set_step b K V2 p2 s")
    with Cons.prems False have "interleave b K V1 V2 sched (p1, p2', s1) = (q1, q2, s')"
      by simp
    from Cons.IH [OF this] have
      "steps_left q1 \<le> steps_left p1 - count_list sched True"
      "steps_left q2 \<le> steps_left p2' - count_list sched False"
      by simp_all
    moreover have "steps_left p2' \<le> steps_left p2 - 1"
      using set_step_progress [of b K V2 p2 s] st by simp
    ultimately show ?thesis using False by simp
  qed
qed

lemma steps_left_0: "steps_left p = 0 \<Longrightarrow> \<exists>r. p = Exited r"
  by (cases p) simp_all

lemma one_record:
  "distinct (map fst xs) \<Longrightarrow> map_of xs k = Some v \<Longrightarrow> filter (\<lambda>r. fst r = k) xs = [(k, v)]"
proof (induction xs)
  case Nil
  then show ?case by simp
next
  case (Cons p xs)
  obtain k' v' where p: "p = (k', v')" by (cases p)
  show ?case
  proof (cases "k' = k")
    case True
    with Cons.prems p have "k \<notin> fst ` set xs" "v' = v" by auto
    then have "filter (\<lambda>r. fst r = k) xs = []"
      by (auto simp add: filter_empty_conv)
    with True p \<open>v' = v\<close> show ?thesis by simp
  next
    case False
    with Cons p show ?thesis by simp
  qed
qed

text \<open>
  The writer whose create fails on the record of the other re-fetches that record, takes
  its value as old value and saves its own value over it.
\<close>

lemma loser_refetches_and_updates:
  assumes "down s = None" "map_of (rows s) (add_prefix b K) = Some v"
  shows "set_step b K V At_create s = (At_refetch, emit (Db_create (add_prefix b K) V) s)"
    and "set_step b K V At_refetch s = (At_save v, emit (Db_get (add_prefix b K)) s)"
    and "set_step b K V (At_save v) s =
           (At_clear v,
            emit (Db_save (add_prefix b K) V)
              (s\<lparr>rows := AList.update (add_prefix b K) V (rows s)\<rparr>))"
proof -
  from assms(2) have "add_prefix b K \<in> fst ` set (rows s)"
    by (metis domI dom_map_of_conv_image_fst)
  with assms show "set_step b K V At_create s = (At_refetch, emit (Db_create (add_prefix b K) V) s)"
    by (simp add: db_create_def)
  from assms show "set_step b K V At_refetch s = (At_save v, emit (Db_get (add_prefix b K)) s)"
    by (simp add: db_get_def)
  from assms show "set_step b K V (At_save v) s =
           (At_clear v,
            emit (Db_save (add_prefix b K) V)
              (s\<lparr>rows := AList.update (add_prefix b K) V (rows s)\<rparr>))"
    by (simp add: db_save_def)
qed

text \<open>
  C8. Create-race convergence: for every key without durable record in an available
  store, and for every interleaving of the store and cache calls of
  \<^verbatim>\<open>set(K, V1)\<close> and \<^verbatim>\<open>set(K, V2)\<close>, the calls of the
  \<^verbatim>\<open>post_save\<close> receiver included, in which each writer gets its ten turns, both writers run to their end without an exception, and afterwards the
  table holds exactly one record for the key, with value \<open>V1\<close> or \<open>V2\<close>.
\<close>

theorem create_race_convergence:
  assumes up: "down s = None"
    and d: "distinct (map fst (rows s))"
    and absent: "add_prefix b K \<notin> fst ` set (rows s)"
    and fair: "10 \<le> count_list sched True" "10 \<le> count_list sched False"
  shows "\<exists>s'. interleave b K V1 V2 sched (At_get, At_get, s)
                 = (Exited (Inr Finished), Exited (Inr Finished), s')
     \<and> (filter (\<lambda>r. fst r = add_prefix b K) (rows s') = [(add_prefix b K, V1)]
        \<or> filter (\<lambda>r. fst r = add_prefix b K) (rows s') = [(add_prefix b K, V2)])"
proof -
  let ?k = "add_prefix b K"
  obtain q1 q2 s' where run: "interleave b K V1 V2 sched (At_get, At_get, s) = (q1, q2, s')"
    by (cases "interleave b K V1 V2 sched (At_get, At_get, s)")
  from absent have "map_of (rows s) ?k = None" by (simp add: map_of_eq_None_iff)
  with up d have "race_inv ?k V1 V2 (At_get, At_get, s)"
    by (simp add: race_inv_def)
  then have "race_inv ?k V1 V2 (interleave b K V1 V2 sched (At_get, At_get, s))"
    by (rule interleave_inv)
  then have inv: "race_inv ?k V1 V2 (q1, q2, s')" by (simp add: run)
  from interleave_progress [OF run] fair have "steps_left q1 = 0" "steps_left q2 = 0"
    by simp_all
  then obtain r1 r2 where q: "q1 = Exited r1" "q2 = Exited r2"
    using steps_left_0 by blast
  from inv q have r: "r1 = Inr Finished" "r2 = Inr Finished"
    by (simp_all add: race_inv_def)
  from inv q r obtain v where v: "map_of (rows s') ?k = Some v" "v = V1 \<or> v = V2"
    and d': "distinct (map fst (rows s'))"
    by (auto simp add: race_inv_def split: option.splits)
  from one_record [OF d' v(1)] v(2) run q r show ?thesis by auto
qed


theorem create_race_convergence_witness:
  "down example_state = None \<and> distinct (map fst (rows example_state)) \<and>
   add_prefix example_backend ''Z'' \<notin> fst ` set (rows example_state) \<and>
   10 \<le> count_list race_schedule True \<and> 10 \<le> count_list race_schedule False \<and>
   fst (interleave example_backend ''Z'' (PInt 1) (PInt 2) race_schedule
          (At_get, At_get, example_state)) = Exited (Inr Finished) \<and>
   fst (snd (interleave example_backend ''Z'' (PInt 1) (PInt 2) race_schedule
          (At_get, At_get, example_state))) = Exited (Inr Finished) \<and>
   rows (snd (snd (interleave example_backend ''Z'' (PInt 1) (PInt 2) race_schedule
          (At_get, At_get, example_state))))
     = [(''constance:A'', PInt 1), (''constance:B'', PInt 2), (''constance:Z'', PInt 2)] \<and>
   trace (snd (snd (interleave example_backend ''Z'' (PInt 1) (PInt 2) race_schedule
          (At_get, At_get, example_state))))
     = [Db_get ''constance:Z'', Db_get ''constance:Z'',
        Db_create ''constance:Z'' (PInt 1), Db_create ''constance:Z'' (PInt 2),
        Db_get ''constance:Z'', Db_save ''constance:Z'' (PInt 2),
        Cache_delete_many [''constance:A'', ''constance:B'', ''constance:autofilled''],
        Autofill_invoked, Cache_get ''constance:autofilled'',
        Db_filter [''constance:A'', ''constance:B''],
        Cache_set_many
          [(''constance:autofilled'', PInt 1), (''constance:A'', PInt 1),
           (''constance:B'', PInt 2)] (Some 86400),
        Cache_set ''constance:Z'' (PInt 2), Config_updated ''constance:Z'' (PInt 1) (PInt 2),
        Cache_set ''constance:Z'' (PInt 1), Config_updated ''constance:Z'' PNone (PInt 1)]"
  using create_race_convergence
          [of example_state example_backend "''Z''" race_schedule "PInt 1" "PInt 2"]
  by (simp add: model_defs race_schedule_def mget.simps)

end
